theory Spec2Isabelle
  imports Main
begin

section \<open>Values exchanged with the collaborators\<close>

text \<open>
  The worker of \<^verbatim>\<open>aecybertv_match_reminders.py\<close> handles decoded JSON
  (\<^verbatim>\<open>Dict[str, Any]\<close>) without checking its shape, so the model keeps the
  values dynamic and writes out what each Python operation does on every kind of value.
  A dictionary is an association list read with \<open>map_of\<close>. Numbers are integers (ids,
  years); floating point numbers are left out of the model.
\<close>

datatype json =
    JNull
  | JBool bool
  | JInt int
  | JStr string
  | JList "json list"
  | JDict "(string \<times> json) list"

datatype py_error = KeyError | TypeError | AttributeError | IndexError | ValueError | HTTPError

text \<open>Truth value of an object, as tested by \<^verbatim>\<open>not x\<close>, \<^verbatim>\<open>x or y\<close> and \<^verbatim>\<open>if x\<close>.\<close>

fun truthy :: "json \<Rightarrow> bool" where
  "truthy JNull = False"
| "truthy (JBool b) = b"
| "truthy (JInt i) = (i \<noteq> 0)"
| "truthy (JStr s) = (s \<noteq> [])"
| "truthy (JList xs) = (xs \<noteq> [])"
| "truthy (JDict kvs) = (kvs \<noteq> [])"

text \<open>\<^verbatim>\<open>x[key]\<close> with a string key: only a dict accepts it.\<close>

fun getitem :: "json \<Rightarrow> string \<Rightarrow> py_error + json" where
  "getitem (JDict kvs) k = (case map_of kvs k of None \<Rightarrow> Inl KeyError | Some v \<Rightarrow> Inr v)"
| "getitem JNull k = Inl TypeError"
| "getitem (JBool b) k = Inl TypeError"
| "getitem (JInt i) k = Inl TypeError"
| "getitem (JStr s) k = Inl TypeError"
| "getitem (JList xs) k = Inl TypeError"

text \<open>A chain of subscripts such as \<^verbatim>\<open>fx["teams"]["home"]["name"]\<close>.\<close>

fun getpath :: "json \<Rightarrow> string list \<Rightarrow> py_error + json" where
  "getpath v [] = Inr v"
| "getpath v (k # ks) = (case getitem v k of Inl e \<Rightarrow> Inl e | Inr u \<Rightarrow> getpath u ks)"

text \<open>\<^verbatim>\<open>x.get(key, default)\<close>: a method of dicts only.\<close>

fun dict_get :: "json \<Rightarrow> string \<Rightarrow> json \<Rightarrow> py_error + json" where
  "dict_get (JDict kvs) k d = Inr (case map_of kvs k of None \<Rightarrow> d | Some v \<Rightarrow> v)"
| "dict_get JNull k d = Inl AttributeError"
| "dict_get (JBool b) k d = Inl AttributeError"
| "dict_get (JInt i) k d = Inl AttributeError"
| "dict_get (JStr s) k d = Inl AttributeError"
| "dict_get (JList xs) k d = Inl AttributeError"

text \<open>\<^verbatim>\<open>x[-1]\<close>: the last element of a sequence; no string-keyed dict has the key -1.\<close>

fun last_item :: "json \<Rightarrow> py_error + json" where
  "last_item (JList xs) = (if xs = [] then Inl IndexError else Inr (last xs))"
| "last_item (JStr s) = (if s = [] then Inl IndexError else Inr (JStr [last s]))"
| "last_item (JDict kvs) = Inl KeyError"
| "last_item JNull = Inl TypeError"
| "last_item (JBool b) = Inl TypeError"
| "last_item (JInt i) = Inl TypeError"

text \<open>The elements a \<^verbatim>\<open>for\<close> loop (or a comprehension) visits.\<close>

fun py_iter :: "json \<Rightarrow> py_error + json list" where
  "py_iter (JList xs) = Inr xs"
| "py_iter (JStr s) = Inr (map (\<lambda>c. JStr [c]) s)"
| "py_iter (JDict kvs) = Inr (map (\<lambda>kv. JStr (fst kv)) kvs)"
| "py_iter JNull = Inl TypeError"
| "py_iter (JBool b) = Inl TypeError"
| "py_iter (JInt i) = Inl TypeError"

text \<open>\<^verbatim>\<open>iso.replace("Z", "+00:00")\<close> on a string.\<close>

definition replace_Z :: "string \<Rightarrow> string" where
  "replace_Z s = concat (map (\<lambda>c. if c = CHR ''Z'' then ''+00:00'' else [c]) s)"

subsection \<open>Decimal text of integers\<close>

fun str_nat :: "nat \<Rightarrow> string" where
  "str_nat n = (if n < 10 then [''0123456789'' ! n]
                else str_nat (n div 10) @ [''0123456789'' ! (n mod 10)])"

declare str_nat.simps [simp del]

definition str_int :: "int \<Rightarrow> string" where
  "str_int i = (if i < 0 then CHR ''-'' # str_nat (nat (- i)) else str_nat (nat i))"

subsection \<open>Time\<close>

text \<open>
  An aware \<^verbatim>\<open>datetime\<close> is an instant: the number of microseconds since the epoch.
  The reference timezone \<^verbatim>\<open>Asia/Dubai\<close> is four hours ahead of UTC all year, so the
  local calendar day of an instant is a day number.
\<close>

type_synonym instant = int

definition minutes :: "int \<Rightarrow> int" where
  "minutes m = m * 60000000"

definition local_date :: "instant \<Rightarrow> int" where
  "local_date t = (t + 14400000000) div 86400000000"

section \<open>Jobs, messages and the state of the worker\<close>

datatype label = HourBefore | QuarterBefore | KickOff | MinusMinutes int

record reminder =
  r_home :: json
  r_away :: json
  r_ko :: instant
  r_league :: json
  r_label :: label
  r_fixture_id :: json
  r_offset :: int

record job =
  job_name :: string
  job_when :: instant
  job_data :: reminder

text \<open>Outgoing texts are kept symbolic: what they carry, not how they are worded.\<close>

datatype message = Reminder reminder | Digest nat nat

datatype log_entry =
    CachedLeagues nat string
  | CacheFailed string py_error
  | FixturesFetchFailed string json py_error
  | ReminderSendFailed int
  | DigestSendFailed int

text \<open>
  The collaborators. Every call to one of them happens at a tick of the worker's own
  counter, and what it answers may depend on the tick: \<open>clock\<close> is
  \<^verbatim>\<open>datetime.now(TZ)\<close>, \<open>api_get\<close> the HTTP request (\<open>Inl\<close> when it raises),
  \<open>send_message\<close> tells whether \<^verbatim>\<open>bot.send_message\<close> returns (\<open>False\<close>: it raises).
  \<open>fromisoformat\<close> is \<^verbatim>\<open>datetime.fromisoformat(s).astimezone(TZ)\<close>, \<open>None\<close>
  where it raises; \<open>year_of\<close> the calendar year of a local day number;
  \<open>repr_container\<close> the text Python prints for a list or a dict.
\<close>

record env =
  clock :: "nat \<Rightarrow> instant"
  api_get :: "nat \<Rightarrow> string \<Rightarrow> (string \<times> json) list \<Rightarrow> py_error + json"
  send_message :: "nat \<Rightarrow> int \<Rightarrow> message \<Rightarrow> bool"
  fromisoformat :: "string \<Rightarrow> instant option"
  year_of :: "int \<Rightarrow> int"
  repr_container :: "json \<Rightarrow> string"

text \<open>
  The module's globals, the job queue (every \<^verbatim>\<open>run_once\<close> registration of a reminder,
  in order), the calls made to \<^verbatim>\<open>bot.send_message\<close> with their outcome, and the log.
  \<^verbatim>\<open>SUBSCRIBERS\<close> is a Python set; the list without repetition stands for it and its
  order for the order in which \<^verbatim>\<open>list(SUBSCRIBERS)\<close> enumerates it.
\<close>

record world =
  LEAGUES_CACHE :: "(string \<times> json list) list"
  SUBSCRIBERS :: "int list"
  SCHEDULED_KEYS :: "string set"
  job_queue :: "job list"
  sends :: "(int \<times> message \<times> bool) list"
  log :: "log_entry list"
  tick :: nat

datatype 'a outcome = Return 'a world | Raise py_error world

fun world_of :: "'a outcome \<Rightarrow> world" where
  "world_of (Return x w) = w"
| "world_of (Raise e w) = w"

definition COUNTRIES :: "string list" where
  "COUNTRIES = [''Spain'', ''England'', ''Italy'', ''France'', ''Saudi Arabia'', ''UAE'']"

definition REMINDER_OFFSETS :: "int list" where
  "REMINDER_OFFSETS = [60, 15, 0]"

definition initial_world :: world where
  "initial_world = \<lparr>LEAGUES_CACHE = [], SUBSCRIBERS = [], SCHEDULED_KEYS = {},
     job_queue = [], sends = [], log = [], tick = 0\<rparr>"

section \<open>Scheduling\<close>

text \<open>The text an f-string substitutes for a value (\<^verbatim>\<open>str\<close>).\<close>

fun py_str :: "env \<Rightarrow> json \<Rightarrow> string" where
  "py_str E JNull = ''None''"
| "py_str E (JBool b) = (if b then ''True'' else ''False'')"
| "py_str E (JInt i) = str_int i"
| "py_str E (JStr s) = s"
| "py_str E (JList xs) = repr_container E (JList xs)"
| "py_str E (JDict kvs) = repr_container E (JDict kvs)"

definition job_key :: "env \<Rightarrow> json \<Rightarrow> int \<Rightarrow> string" where
  "job_key E fixture_id offset_min = py_str E fixture_id @ '':'' @ str_int offset_min"

text \<open>
  \<^verbatim>\<open>datetime.fromisoformat(fx["fixture"]["date"].replace("Z", "+00:00")).astimezone(TZ)\<close>,
  evaluated in both \<^verbatim>\<open>schedule_reminders_for_fixture\<close> and \<^verbatim>\<open>pull_and_schedule\<close>.
  Only a string has the method \<^verbatim>\<open>replace\<close>.
\<close>

definition fixture_kickoff :: "env \<Rightarrow> json \<Rightarrow> py_error + instant" where
  "fixture_kickoff E fx =
     (case getpath fx [''fixture'', ''date''] of
        Inl e \<Rightarrow> Inl e
      | Inr d \<Rightarrow>
          (case d of
             JStr s \<Rightarrow> (case fromisoformat E (replace_Z s) of
                          None \<Rightarrow> Inl ValueError
                        | Some t \<Rightarrow> Inr t)
           | _ \<Rightarrow> Inl AttributeError))"

text \<open>The label dictionary \<^verbatim>\<open>{60: ..., 15: ..., 0: ...}.get(mins, f"-{mins}m")\<close>.\<close>

definition label_of :: "int \<Rightarrow> label" where
  "label_of mins = (if mins = 60 then HourBefore else if mins = 15 then QuarterBefore
                    else if mins = 0 then KickOff else MinusMinutes mins)"

text \<open>
  The loop \<^verbatim>\<open>for mins in REMINDER_OFFSETS\<close> of \<^verbatim>\<open>schedule_reminders_for_fixture\<close>;
  the counter \<^verbatim>\<open>scheduled\<close> and the state are threaded through. \<open>reminder_job\<close>
  is the registration \<^verbatim>\<open>run_once(send_reminder_job, when=when, data=..., name=...)\<close>.
\<close>

definition reminder_job ::
  "env \<Rightarrow> instant \<Rightarrow> json \<Rightarrow> json \<Rightarrow> json \<Rightarrow> json \<Rightarrow> int \<Rightarrow> job" where
  "reminder_job E ko home away league fixture_id mins =
     \<lparr>job_name = ''fx:'' @ py_str E fixture_id @ '':'' @ str_int mins,
      job_when = ko - minutes mins,
      job_data = \<lparr>r_home = home, r_away = away, r_ko = ko, r_league = league,
                  r_label = label_of mins, r_fixture_id = fixture_id, r_offset = mins\<rparr>\<rparr>"

fun offsets_loop ::
  "env \<Rightarrow> instant \<Rightarrow> json \<Rightarrow> json \<Rightarrow> json \<Rightarrow> json \<Rightarrow> instant \<Rightarrow> int list \<Rightarrow> nat \<Rightarrow> world
   \<Rightarrow> nat \<times> world" where
  "offsets_loop E ko home away league fixture_id now [] scheduled w = (scheduled, w)"
| "offsets_loop E ko home away league fixture_id now (mins # rest) scheduled w =
     (let when = ko - minutes mins in
      if when \<le> now then offsets_loop E ko home away league fixture_id now rest scheduled w
      else
        let k = job_key E fixture_id mins in
        if k \<in> SCHEDULED_KEYS w
        then offsets_loop E ko home away league fixture_id now rest scheduled w
        else offsets_loop E ko home away league fixture_id now rest (scheduled + 1)
               (w\<lparr>SCHEDULED_KEYS := insert k (SCHEDULED_KEYS w),
                  job_queue := job_queue w @
                    [reminder_job E ko home away league fixture_id mins]\<rparr>))"

text \<open>
  \<^verbatim>\<open>schedule_reminders_for_fixture\<close>: any exception of the \<^verbatim>\<open>try\<close> block gives 0
  before the clock is read.
\<close>

definition schedule_reminders_for_fixture :: "env \<Rightarrow> json \<Rightarrow> world \<Rightarrow> nat \<times> world" where
  "schedule_reminders_for_fixture E fx w =
     (case fixture_kickoff E fx of
        Inl e \<Rightarrow> (0, w)
      | Inr ko \<Rightarrow>
     (case getpath fx [''teams'', ''home'', ''name''] of
        Inl e \<Rightarrow> (0, w)
      | Inr home \<Rightarrow>
     (case getpath fx [''teams'', ''away'', ''name''] of
        Inl e \<Rightarrow> (0, w)
      | Inr away \<Rightarrow>
     (case getpath fx [''league'', ''name''] of
        Inl e \<Rightarrow> (0, w)
      | Inr league \<Rightarrow>
     (case getpath fx [''fixture'', ''id''] of
        Inl e \<Rightarrow> (0, w)
      | Inr fixture_id \<Rightarrow>
          (let now = clock E (tick w);
               w1 = w\<lparr>tick := Suc (tick w)\<rparr>
           in if ko \<le> now then (0, w1)
              else offsets_loop E ko home away league fixture_id now REMINDER_OFFSETS 0 w1))))))"

section \<open>Broadcasting\<close>

text \<open>
  The loop \<^verbatim>\<open>for chat_id in list(SUBSCRIBERS): try: send except: log.warning\<close>, written
  twice in the source (reminder and digest) with a different warning.
\<close>

fun send_all :: "env \<Rightarrow> (int \<Rightarrow> log_entry) \<Rightarrow> message \<Rightarrow> int list \<Rightarrow> world \<Rightarrow> world" where
  "send_all E warn msg [] w = w"
| "send_all E warn msg (chat_id # rest) w =
     (if send_message E (tick w) chat_id msg
      then send_all E warn msg rest
             (w\<lparr>sends := sends w @ [(chat_id, msg, True)], tick := Suc (tick w)\<rparr>)
      else send_all E warn msg rest
             (w\<lparr>sends := sends w @ [(chat_id, msg, False)],
                log := log w @ [warn chat_id], tick := Suc (tick w)\<rparr>))"

definition send_reminder_job :: "env \<Rightarrow> reminder \<Rightarrow> world \<Rightarrow> world" where
  "send_reminder_job E d w = send_all E ReminderSendFailed (Reminder d) (SUBSCRIBERS w) w"

section \<open>The pull cycle\<close>

text \<open>The comprehension \<^verbatim>\<open>[x for x in ... if x.get("league")]\<close>.\<close>

fun keep_leagues :: "json list \<Rightarrow> py_error + json list" where
  "keep_leagues [] = Inr []"
| "keep_leagues (x # xs) =
     (case dict_get x ''league'' JNull of
        Inl e \<Rightarrow> Inl e
      | Inr l \<Rightarrow> (case keep_leagues xs of
                   Inl e \<Rightarrow> Inl e
                 | Inr ys \<Rightarrow> Inr (if truthy l then x # ys else ys)))"

definition get_current_leagues_for_country :: "env \<Rightarrow> nat \<Rightarrow> string \<Rightarrow> py_error + json list" where
  "get_current_leagues_for_country E t country =
     (case api_get E t ''/leagues'' [(''country'', JStr country), (''current'', JStr ''true'')] of
        Inl e \<Rightarrow> Inl e
      | Inr data \<Rightarrow>
          (case dict_get data ''response'' (JList []) of
             Inl e \<Rightarrow> Inl e
           | Inr resp \<Rightarrow> (case py_iter resp of Inl e \<Rightarrow> Inl e | Inr xs \<Rightarrow> keep_leagues xs)))"

text \<open>\<^verbatim>\<open>ensure_leagues_cache\<close>, over the countries still to visit.\<close>

fun ensure_leagues_cache :: "env \<Rightarrow> string list \<Rightarrow> world \<Rightarrow> world" where
  "ensure_leagues_cache E [] w = w"
| "ensure_leagues_cache E (c # cs) w =
     (if map_of (LEAGUES_CACHE w) c \<noteq> None then ensure_leagues_cache E cs w
      else
        (case get_current_leagues_for_country E (tick w) c of
           Inr leagues \<Rightarrow>
             ensure_leagues_cache E cs
               (w\<lparr>LEAGUES_CACHE := LEAGUES_CACHE w @ [(c, leagues)],
                  log := log w @ [CachedLeagues (length leagues) c], tick := Suc (tick w)\<rparr>)
         | Inl e \<Rightarrow>
             ensure_leagues_cache E cs
               (w\<lparr>log := log w @ [CacheFailed c e], tick := Suc (tick w)\<rparr>)))"

text \<open>
  \<^verbatim>\<open>get_today_fixtures_for_league\<close>; the day stands for its \<^verbatim>\<open>%Y-%m-%d\<close> text.
\<close>

definition get_today_fixtures_for_league ::
  "env \<Rightarrow> nat \<Rightarrow> json \<Rightarrow> json \<Rightarrow> int \<Rightarrow> py_error + json" where
  "get_today_fixtures_for_league E t league_id season day =
     (case api_get E t ''/fixtures''
             [(''date'', JInt day), (''league'', league_id), (''season'', season),
              (''timezone'', JStr ''Asia/Dubai'')] of
        Inl e \<Rightarrow> Inl e
      | Inr data \<Rightarrow> dict_get data ''response'' (JList []))"

text \<open>\<^verbatim>\<open>seasons[-1].get("year") or datetime.now(TZ).year\<close>; the clock is read only
  when the year is missing or falsy.\<close>

definition pick_season :: "env \<Rightarrow> json \<Rightarrow> world \<Rightarrow> json outcome" where
  "pick_season E seasons w =
     (case last_item seasons of
        Inl e \<Rightarrow> Raise e w
      | Inr s \<Rightarrow>
          (case dict_get s ''year'' JNull of
             Inl e \<Rightarrow> Raise e w
           | Inr y \<Rightarrow>
               if truthy y then Return y w
               else Return (JInt (year_of E (local_date (clock E (tick w))))) (w\<lparr>tick := Suc (tick w)\<rparr>)))"

text \<open>The loop \<^verbatim>\<open>for fx in fixtures\<close> of \<^verbatim>\<open>pull_and_schedule\<close>.\<close>

fun fixtures_loop :: "env \<Rightarrow> int \<Rightarrow> json list \<Rightarrow> nat \<Rightarrow> world \<Rightarrow> nat \<times> world" where
  "fixtures_loop E today [] total_jobs w = (total_jobs, w)"
| "fixtures_loop E today (fx # rest) total_jobs w =
     (case fixture_kickoff E fx of
        Inl e \<Rightarrow> fixtures_loop E today rest total_jobs w
      | Inr ko \<Rightarrow>
          if local_date ko \<noteq> today then fixtures_loop E today rest total_jobs w
          else (case schedule_reminders_for_fixture E fx w of
                  (n, w') \<Rightarrow> fixtures_loop E today rest (total_jobs + n) w'))"

text \<open>One iteration of \<^verbatim>\<open>for item in leagues\<close>: the new total, or the exception that
  leaves the cycle.\<close>

definition league_step :: "env \<Rightarrow> int \<Rightarrow> string \<Rightarrow> json \<Rightarrow> nat \<Rightarrow> world \<Rightarrow> nat outcome" where
  "league_step E today country item total_jobs w =
     (case dict_get item ''league'' (JDict []) of
        Inl e \<Rightarrow> Raise e w
      | Inr league \<Rightarrow>
     (case dict_get item ''seasons'' JNull of
        Inl e \<Rightarrow> Raise e w
      | Inr s0 \<Rightarrow>
          (let seasons = (if truthy s0 then s0 else JList []) in
           if \<not> truthy league \<or> \<not> truthy seasons then Return total_jobs w
           else
     (case pick_season E seasons w of
        Raise e w1 \<Rightarrow> Raise e w1
      | Return season w1 \<Rightarrow>
     (case dict_get league ''id'' JNull of
        Inl e \<Rightarrow> Raise e w1
      | Inr league_id \<Rightarrow>
          if \<not> truthy league_id then Return total_jobs w1
          else
     (case get_today_fixtures_for_league E (tick w1) league_id season today of
        Inl e \<Rightarrow>
          (case dict_get league ''name'' JNull of
             Inl e' \<Rightarrow> Raise e' (w1\<lparr>tick := Suc (tick w1)\<rparr>)
           | Inr name \<Rightarrow>
               Return total_jobs
                 (w1\<lparr>log := log w1 @ [FixturesFetchFailed country name e],
                     tick := Suc (tick w1)\<rparr>))
      | Inr fixtures \<Rightarrow>
          (case py_iter fixtures of
             Inl e \<Rightarrow> Raise e (w1\<lparr>tick := Suc (tick w1)\<rparr>)
           | Inr fxs \<Rightarrow>
               (case fixtures_loop E today fxs total_jobs (w1\<lparr>tick := Suc (tick w1)\<rparr>) of
                  (total', w2) \<Rightarrow> Return total' w2))))))))"

fun leagues_loop :: "env \<Rightarrow> int \<Rightarrow> string \<Rightarrow> json list \<Rightarrow> nat \<Rightarrow> world \<Rightarrow> nat outcome" where
  "leagues_loop E today country [] total_jobs w = Return total_jobs w"
| "leagues_loop E today country (item # rest) total_jobs w =
     (case league_step E today country item total_jobs w of
        Raise e w' \<Rightarrow> Raise e w'
      | Return total' w' \<Rightarrow> leagues_loop E today country rest total' w')"

text \<open>The loop \<^verbatim>\<open>for country, leagues in LEAGUES_CACHE.items()\<close>.\<close>

fun countries_loop ::
  "env \<Rightarrow> int \<Rightarrow> (string \<times> json list) list \<Rightarrow> nat \<Rightarrow> nat \<Rightarrow> world \<Rightarrow> (nat \<times> nat) outcome" where
  "countries_loop E today [] countries_touched total_jobs w =
     Return (countries_touched, total_jobs) w"
| "countries_loop E today ((country, leagues) # rest) countries_touched total_jobs w =
     (case leagues_loop E today country leagues total_jobs w of
        Raise e w' \<Rightarrow> Raise e w'
      | Return total' w' \<Rightarrow> countries_loop E today rest (countries_touched + 1) total' w')"

text \<open>The cycle up to the digest: the cache, today's date, the loops.\<close>

definition pull_fixtures :: "env \<Rightarrow> world \<Rightarrow> (nat \<times> nat) outcome" where
  "pull_fixtures E w =
     (let w1 = ensure_leagues_cache E COUNTRIES w;
          today = local_date (clock E (tick w1));
          w2 = w1\<lparr>tick := Suc (tick w1)\<rparr>
      in countries_loop E today (LEAGUES_CACHE w2) 0 0 w2)"

definition pull_and_schedule :: "env \<Rightarrow> world \<Rightarrow> unit outcome" where
  "pull_and_schedule E w =
     (case pull_fixtures E w of
        Raise e w' \<Rightarrow> Raise e w'
      | Return (countries_touched, total_jobs) w' \<Rightarrow>
          if SUBSCRIBERS w' \<noteq> [] \<and> total_jobs > 0
          then Return () (send_all E DigestSendFailed (Digest countries_touched total_jobs)
                            (SUBSCRIBERS w') w')
          else Return () w')"

section \<open>Commands and runs\<close>

text \<open>\<^verbatim>\<open>liveon\<close> and \<^verbatim>\<open>liveoff\<close> change the subscriber set; boot, daily and manual
  pulls all run \<^verbatim>\<open>pull_and_schedule\<close>; a timer fires \<^verbatim>\<open>send_reminder_job\<close>.\<close>

datatype event = Pull | LiveOn int | LiveOff int | Fire reminder

fun step :: "env \<Rightarrow> event \<Rightarrow> world \<Rightarrow> world" where
  "step E Pull w = world_of (pull_and_schedule E w)"
| "step E (LiveOn c) w =
     w\<lparr>SUBSCRIBERS := (if c \<in> set (SUBSCRIBERS w) then SUBSCRIBERS w else SUBSCRIBERS w @ [c])\<rparr>"
| "step E (LiveOff c) w = w\<lparr>SUBSCRIBERS := removeAll c (SUBSCRIBERS w)\<rparr>"
| "step E (Fire d) w = send_reminder_job E d w"

fun run :: "env \<Rightarrow> event list \<Rightarrow> world \<Rightarrow> world" where
  "run E [] w = w"
| "run E (ev # evs) w = run E evs (step E ev w)"

section \<open>Notions used in the statements and the proofs\<close>

text \<open>The offsets of a fixture that a planning pass at \<open>now\<close> turns into jobs: the delivery
  instant is still ahead and the key is not in the ledger.\<close>

definition planned :: "env \<Rightarrow> world \<Rightarrow> instant \<Rightarrow> json \<Rightarrow> instant \<Rightarrow> int list" where
  "planned E w ko fixture_id now =
     filter (\<lambda>m. now < ko - minutes m \<and> job_key E fixture_id m \<notin> SCHEDULED_KEYS w)
       REMINDER_OFFSETS"

text \<open>The fields \<^verbatim>\<open>schedule_reminders_for_fixture\<close> reads from a fixture record.\<close>

definition required_fields :: "string list list" where
  "required_fields = [[''fixture'', ''date''], [''teams'', ''home'', ''name''],
     [''teams'', ''away'', ''name''], [''league'', ''name''], [''fixture'', ''id'']]"

text \<open>The kickoff of the record can be read and falls on the given local day.\<close>

definition kicks_off_on :: "env \<Rightarrow> int \<Rightarrow> json \<Rightarrow> bool" where
  "kicks_off_on E today fx =
     (case fixture_kickoff E fx of Inl e \<Rightarrow> False | Inr ko \<Rightarrow> local_date ko = today)"

text \<open>The calls to \<^verbatim>\<open>bot.send_message\<close> that one broadcast starting at tick \<open>t\<close> makes:
  one per chat, in order, each with its own outcome.\<close>

fun attempts :: "env \<Rightarrow> message \<Rightarrow> nat \<Rightarrow> int list \<Rightarrow> (int \<times> message \<times> bool) list" where
  "attempts E msg t [] = []"
| "attempts E msg t (chat_id # rest) =
     (chat_id, msg, send_message E t chat_id msg) # attempts E msg (Suc t) rest"

text \<open>The dedupe key of a registered job.\<close>

definition keyed :: "env \<Rightarrow> job \<Rightarrow> string" where
  "keyed E j = job_key E (r_fixture_id (job_data j)) (r_offset (job_data j))"

text \<open>
  \<open>extends E w w' n\<close>: from \<open>w\<close> to \<open>w'\<close> the subscribers and the sent messages are the
  same, the clock counter and the ledger have not gone back, and the queue has \<open>n\<close> more
  jobs, with different names, each named after its key, which entered the ledger in between.
\<close>

definition extends :: "env \<Rightarrow> world \<Rightarrow> world \<Rightarrow> nat \<Rightarrow> bool" where
  "extends E w w' n \<longleftrightarrow>
     SUBSCRIBERS w' = SUBSCRIBERS w \<and> sends w' = sends w \<and> tick w \<le> tick w' \<and>
     SCHEDULED_KEYS w \<subseteq> SCHEDULED_KEYS w' \<and>
     (\<exists>js. job_queue w' = job_queue w @ js \<and> length js = n \<and> distinct (map job_name js) \<and>
        (\<forall>j \<in> set js. job_name j = ''fx:'' @ keyed E j \<and>
            keyed E j \<in> SCHEDULED_KEYS w' \<and> keyed E j \<notin> SCHEDULED_KEYS w))"

text \<open>The jobs of the queue have different names, and each is named after its key, which is in
  the ledger.\<close>

definition ledger_ok :: "env \<Rightarrow> world \<Rightarrow> bool" where
  "ledger_ok E w \<longleftrightarrow>
     distinct (map job_name (job_queue w)) \<and>
     (\<forall>j \<in> set (job_queue w). job_name j = ''fx:'' @ keyed E j \<and> keyed E j \<in> SCHEDULED_KEYS w)"

text \<open>What the outcome of a loop of the cycle owes to \<open>extends\<close>: the total counts the jobs added;
  when an exception leaves the loop, the jobs registered before it stay.\<close>

definition grows :: "env \<Rightarrow> world \<Rightarrow> nat \<Rightarrow> nat outcome \<Rightarrow> bool" where
  "grows E w tot out =
     (case out of
        Return tot' w' \<Rightarrow> tot \<le> tot' \<and> extends E w w' (tot' - tot)
      | Raise e w' \<Rightarrow> (\<exists>n. extends E w w' n))"

definition grows2 :: "env \<Rightarrow> world \<Rightarrow> nat \<Rightarrow> nat \<Rightarrow> (nat \<times> nat) outcome \<Rightarrow> bool" where
  "grows2 E w ct tot out =
     (case out of
        Return r w' \<Rightarrow> fst r = ct \<and> tot \<le> snd r \<and> extends E w w' (snd r - tot)
      | Raise e w' \<Rightarrow> (\<exists>n. extends E w w' n))"

text \<open>What any event adds to the queue has a key that was not in the ledger.\<close>

definition fresh_jobs :: "env \<Rightarrow> world \<Rightarrow> world \<Rightarrow> bool" where
  "fresh_jobs E w w' \<longleftrightarrow>
     SCHEDULED_KEYS w \<subseteq> SCHEDULED_KEYS w' \<and>
     (\<exists>js. job_queue w' = job_queue w @ js \<and> (\<forall>j \<in> set js. keyed E j \<notin> SCHEDULED_KEYS w))"

text \<open>The job is a reminder of the given fixture id at the given offset.\<close>

definition job_for :: "json \<Rightarrow> int \<Rightarrow> job \<Rightarrow> bool" where
  "job_for fixture_id m j \<longleftrightarrow> r_fixture_id (job_data j) = fixture_id \<and> r_offset (job_data j) = m"

text \<open>
  Two runs in immediate succession with identical fetched data: the clock never goes back
  and stays within one local day, and the provider answers a request the same way whenever
  it is asked.
\<close>

definition steady :: "env \<Rightarrow> bool" where
  "steady E \<longleftrightarrow>
     (\<forall>i j. i \<le> j \<longrightarrow> clock E i \<le> clock E j) \<and>
     (\<forall>i j. local_date (clock E i) = local_date (clock E j)) \<and>
     (\<forall>t t' path params. api_get E t path params = api_get E t' path params)"

text \<open>Planning the record in this state schedules nothing and at most reads the clock.\<close>

definition idle :: "env \<Rightarrow> json \<Rightarrow> world \<Rightarrow> bool" where
  "idle E fx v \<longleftrightarrow>
     schedule_reminders_for_fixture E fx v = (0, v) \<or>
     schedule_reminders_for_fixture E fx v = (0, v\<lparr>tick := Suc (tick v)\<rparr>)"

text \<open>The same in every state with at least this ledger, at this tick or later.\<close>

definition quiet :: "env \<Rightarrow> json \<Rightarrow> world \<Rightarrow> bool" where
  "quiet E fx v \<longleftrightarrow>
     (\<forall>v'. SCHEDULED_KEYS v \<subseteq> SCHEDULED_KEYS v' \<longrightarrow> tick v \<le> tick v' \<longrightarrow> idle E fx v')"

text \<open>A state reached without touching the ledger, the queue, the subscribers or the cache.\<close>

definition inert :: "world \<Rightarrow> world \<Rightarrow> bool" where
  "inert v v' \<longleftrightarrow>
     SCHEDULED_KEYS v' = SCHEDULED_KEYS v \<and> job_queue v' = job_queue v \<and>
     SUBSCRIBERS v' = SUBSCRIBERS v \<and> sends v' = sends v \<and>
     LEAGUES_CACHE v' = LEAGUES_CACHE v \<and> tick v \<le> tick v'"

text \<open>The season a league step selects when the local day of the clock does not change.\<close>

definition season_of :: "env \<Rightarrow> json \<Rightarrow> py_error + json" where
  "season_of E seasons =
     (case last_item seasons of
        Inl e \<Rightarrow> Inl e
      | Inr s \<Rightarrow>
          (case dict_get s ''year'' JNull of
             Inl e \<Rightarrow> Inl e
           | Inr y \<Rightarrow> Inr (if truthy y then y else JInt (year_of E (local_date (clock E 0))))))"

text \<open>What a league step does with a league record, whatever the state, when the provider's
  answers do not depend on the moment: it raises, it goes on to the next league without
  fixtures, or it runs the fixtures loop over a list.\<close>

datatype league_plan = Crash py_error | NoFixtures | Fixtures "json list"

definition league_plan_of :: "env \<Rightarrow> int \<Rightarrow> json \<Rightarrow> league_plan" where
  "league_plan_of E today item =
     (case dict_get item ''league'' (JDict []) of
        Inl e \<Rightarrow> Crash e
      | Inr league \<Rightarrow>
     (case dict_get item ''seasons'' JNull of
        Inl e \<Rightarrow> Crash e
      | Inr s0 \<Rightarrow>
          (let seasons = (if truthy s0 then s0 else JList []) in
           if \<not> truthy league \<or> \<not> truthy seasons then NoFixtures
           else
     (case season_of E seasons of
        Inl e \<Rightarrow> Crash e
      | Inr season \<Rightarrow>
     (case dict_get league ''id'' JNull of
        Inl e \<Rightarrow> Crash e
      | Inr league_id \<Rightarrow>
          if \<not> truthy league_id then NoFixtures
          else
     (case get_today_fixtures_for_league E 0 league_id season today of
        Inl e \<Rightarrow> (case dict_get league ''name'' JNull of Inl e' \<Rightarrow> Crash e' | Inr name \<Rightarrow> NoFixtures)
      | Inr fixtures \<Rightarrow>
          (case py_iter fixtures of Inl e \<Rightarrow> Crash e | Inr fxs \<Rightarrow> Fixtures fxs)))))))"

text \<open>Every fixture that the leagues loop would plan for these records is quiet in the
  state; the records after one that makes the step raise are never reached.\<close>

fun settled_items :: "env \<Rightarrow> int \<Rightarrow> json list \<Rightarrow> world \<Rightarrow> bool" where
  "settled_items E today [] v = True"
| "settled_items E today (item # rest) v =
     (case league_plan_of E today item of
        Crash e \<Rightarrow> True
      | NoFixtures \<Rightarrow> settled_items E today rest v
      | Fixtures fxs \<Rightarrow>
          (\<forall>fx \<in> set fxs. kicks_off_on E today fx \<longrightarrow> quiet E fx v) \<and>
          settled_items E today rest v)"

fun crashes :: "env \<Rightarrow> int \<Rightarrow> json list \<Rightarrow> bool" where
  "crashes E today [] = False"
| "crashes E today (item # rest) =
     (case league_plan_of E today item of
        Crash e \<Rightarrow> True
      | NoFixtures \<Rightarrow> crashes E today rest
      | Fixtures fxs \<Rightarrow> crashes E today rest)"

fun settled_cache :: "env \<Rightarrow> int \<Rightarrow> (string \<times> json list) list \<Rightarrow> world \<Rightarrow> bool" where
  "settled_cache E today [] v = True"
| "settled_cache E today ((country, leagues) # rest) v =
     (settled_items E today leagues v \<and>
      (crashes E today leagues \<or> settled_cache E today rest v))"

text \<open>The state after a cycle: all that the cycle planned is quiet, and the countries
  without cached leagues are those whose leagues cannot be fetched.\<close>

definition rested :: "env \<Rightarrow> world \<Rightarrow> bool" where
  "rested E v \<longleftrightarrow>
     settled_cache E (local_date (clock E 0)) (LEAGUES_CACHE v) v \<and>
     (\<forall>c \<in> set COUNTRIES. map_of (LEAGUES_CACHE v) c \<noteq> None \<or>
        (\<exists>e. get_current_leagues_for_country E 0 c = Inl e))"

section \<open>Example data\<close>

text \<open>
  A Sunday of fixtures: 1761472800000000 is 2025-10-26 14:00 in Dubai (10:00 UTC), day
  number 20387; 1761512400000000 is 01:00 of the next local day (21:00 UTC).
\<close>

definition demo_fromisoformat :: "string \<Rightarrow> instant option" where
  "demo_fromisoformat s =
     (if s = ''2025-10-26T10:00:00+00:00'' then Some 1761472800000000
      else if s = ''2025-10-26T21:00:00+00:00'' then Some 1761512400000000
      else None)"

definition demo_fixture :: "int \<Rightarrow> string \<Rightarrow> json" where
  "demo_fixture i d =
     JDict [(''fixture'', JDict [(''id'', JInt i), (''date'', JStr d)]),
            (''league'', JDict [(''name'', JStr ''La Liga'')]),
            (''teams'', JDict [(''home'', JDict [(''name'', JStr ''Sevilla'')]),
                               (''away'', JDict [(''name'', JStr ''Getafe'')])])]"

text \<open>A record that lacks the teams.\<close>

definition demo_broken_fixture :: json where
  "demo_broken_fixture =
     JDict [(''fixture'', JDict [(''id'', JInt 9), (''date'', JStr ''2025-10-26T10:00:00Z'')]),
            (''league'', JDict [(''name'', JStr ''La Liga'')])]"

definition demo_league :: "int \<Rightarrow> string \<Rightarrow> int list \<Rightarrow> json" where
  "demo_league i name years =
     JDict [(''league'', JDict [(''id'', JInt i), (''name'', JStr name)]),
            (''seasons'', JList (map (\<lambda>y. JDict [(''year'', JInt y)]) years))]"

text \<open>The provider knows Spain only, with two leagues; the fixtures of league 141 cannot be
  fetched, league 140 has one fixture today and one that falls on the next local day.\<close>

definition demo_api :: "nat \<Rightarrow> string \<Rightarrow> (string \<times> json) list \<Rightarrow> py_error + json" where
  "demo_api t path params =
     (if path = ''/leagues'' then
        (if map_of params ''country'' = Some (JStr ''Spain'')
         then Inr (JDict [(''response'',
                JList [demo_league 141 ''Segunda'' [2025], demo_league 140 ''La Liga'' [2024, 2025]])])
         else Inl HTTPError)
      else if map_of params ''league'' = Some (JInt 140)
      then Inr (JDict [(''response'',
             JList [demo_fixture 7 ''2025-10-26T10:00:00Z'', demo_fixture 8 ''2025-10-26T21:00:00Z''])])
      else Inl HTTPError)"

text \<open>The reminder of fixture 7 at kickoff.\<close>

definition demo_reminder :: reminder where
  "demo_reminder = \<lparr>r_home = JStr ''Sevilla'', r_away = JStr ''Getafe'',
     r_ko = 1761472800000000, r_league = JStr ''La Liga'', r_label = KickOff,
     r_fixture_id = JInt 7, r_offset = 0\<rparr>"

text \<open>The clock starts at \<open>t0\<close> and advances with every reading; chat 2 cannot be reached.\<close>

definition demo_env :: "instant \<Rightarrow> env" where
  "demo_env t0 = \<lparr>clock = (\<lambda>n. t0 + int n),
     api_get = demo_api,
     send_message = (\<lambda>t chat_id msg. chat_id \<noteq> 2),
     fromisoformat = demo_fromisoformat,
     year_of = (\<lambda>d. 2025),
     repr_container = (\<lambda>v. ''[]'')\<rparr>"

text \<open>A provider that has the fixtures of league 140 for season 2025 only.\<close>

definition season_probe_api :: "nat \<Rightarrow> string \<Rightarrow> (string \<times> json) list \<Rightarrow> py_error + json" where
  "season_probe_api t path params =
     (if path = ''/fixtures'' \<and> map_of params ''league'' = Some (JInt 140)
         \<and> map_of params ''season'' = Some (JInt 2025)
      then Inr (JDict [(''response'', JList [demo_fixture 7 ''2025-10-26T10:00:00Z''])])
      else Inl HTTPError)"

definition season_probe_env :: env where
  "season_probe_env = (demo_env 1761472200000000)\<lparr>api_get := season_probe_api\<rparr>"

text \<open>As \<open>demo_env\<close>, with a clock that stops after a hundred readings.\<close>

definition steady_demo_env :: "instant \<Rightarrow> env" where
  "steady_demo_env t0 = (demo_env t0)\<lparr>clock := (\<lambda>n. t0 + int (min n 100))\<rparr>"

section \<open>The offsets loop\<close>

lemma initial_world_sel:
  "tick initial_world = 0" "SCHEDULED_KEYS initial_world = {}" "job_queue initial_world = []"
  "SUBSCRIBERS initial_world = []" "LEAGUES_CACHE initial_world = []"
  "sends initial_world = []" "log initial_world = []"
  by (simp_all add: initial_world_def)

lemma offsets_loop_skip:
  "ko - minutes m \<le> now \<or> job_key E fid m \<in> SCHEDULED_KEYS w \<Longrightarrow>
   offsets_loop E ko h a l fid now (m # ms) n w = offsets_loop E ko h a l fid now ms n w"
  by (auto simp: Let_def)

lemma offsets_loop_take:
  "\<not> (ko - minutes m \<le> now \<or> job_key E fid m \<in> SCHEDULED_KEYS w) \<Longrightarrow>
   offsets_loop E ko h a l fid now (m # ms) n w =
   offsets_loop E ko h a l fid now ms (n + 1)
     (w\<lparr>SCHEDULED_KEYS := insert (job_key E fid m) (SCHEDULED_KEYS w),
        job_queue := job_queue w @ [reminder_job E ko h a l fid m]\<rparr>)"
  by (auto simp: Let_def)

lemma offsets_loop_frame:
  "offsets_loop E ko h a l fid now ms n w = (n', w') \<Longrightarrow>
   w' = w\<lparr>SCHEDULED_KEYS := SCHEDULED_KEYS w', job_queue := job_queue w'\<rparr>"
proof (induction ms arbitrary: n w)
  case Nil
  then show ?case by simp
next
  case (Cons m ms)
  show ?case
  proof (cases "ko - minutes m \<le> now \<or> job_key E fid m \<in> SCHEDULED_KEYS w")
    case True
    with Cons.prems have "offsets_loop E ko h a l fid now ms n w = (n', w')"
      by (simp only: offsets_loop_skip)
    then show ?thesis by (rule Cons.IH)
  next
    case False
    let ?w1 = "w\<lparr>SCHEDULED_KEYS := insert (job_key E fid m) (SCHEDULED_KEYS w),
                  job_queue := job_queue w @ [reminder_job E ko h a l fid m]\<rparr>"
    from Cons.prems have "offsets_loop E ko h a l fid now ms (n + 1) ?w1 = (n', w')"
      by (simp only: offsets_loop_take [OF False])
    from Cons.IH [OF this] show ?thesis by simp
  qed
qed

lemma offsets_loop_count:
  "offsets_loop E ko h a l fid now ms n w = (n', w') \<Longrightarrow>
   n \<le> n' \<and> n' \<le> n + length ms \<and>
   SCHEDULED_KEYS w \<subseteq> SCHEDULED_KEYS w' \<and>
   finite (SCHEDULED_KEYS w' - SCHEDULED_KEYS w) \<and>
   card (SCHEDULED_KEYS w' - SCHEDULED_KEYS w) = n' - n \<and>
   length (job_queue w') = length (job_queue w) + (n' - n)"
proof (induction ms arbitrary: n w)
  case Nil
  then show ?case by simp
next
  case (Cons m ms)
  show ?case
  proof (cases "ko - minutes m \<le> now \<or> job_key E fid m \<in> SCHEDULED_KEYS w")
    case True
    with Cons.prems have "offsets_loop E ko h a l fid now ms n w = (n', w')"
      by (simp only: offsets_loop_skip)
    from Cons.IH [OF this] show ?thesis by simp
  next
    case False
    let ?k = "job_key E fid m"
    let ?w1 = "w\<lparr>SCHEDULED_KEYS := insert ?k (SCHEDULED_KEYS w),
                  job_queue := job_queue w @ [reminder_job E ko h a l fid m]\<rparr>"
    from Cons.prems have run: "offsets_loop E ko h a l fid now ms (n + 1) ?w1 = (n', w')"
      by (simp only: offsets_loop_take [OF False])
    note ih = Cons.IH [OF run]
    from ih have sub: "insert ?k (SCHEDULED_KEYS w) \<subseteq> SCHEDULED_KEYS w'" by simp
    from False have fresh: "?k \<notin> SCHEDULED_KEYS w" by simp
    have split: "SCHEDULED_KEYS w' - SCHEDULED_KEYS w =
                 insert ?k (SCHEDULED_KEYS w' - insert ?k (SCHEDULED_KEYS w))"
      using sub fresh by auto
    from ih have fin: "finite (SCHEDULED_KEYS w' - insert ?k (SCHEDULED_KEYS w))" by simp
    from ih have c: "card (SCHEDULED_KEYS w' - insert ?k (SCHEDULED_KEYS w)) = n' - (n + 1)" by simp
    have notin: "?k \<notin> SCHEDULED_KEYS w' - insert ?k (SCHEDULED_KEYS w)" by simp
    have "card (SCHEDULED_KEYS w' - SCHEDULED_KEYS w) = Suc (n' - (n + 1))"
      by (subst split) (simp only: card_insert_disjoint [OF fin notin] c)
    moreover from ih have "n + 1 \<le> n'" by simp
    ultimately have "card (SCHEDULED_KEYS w' - SCHEDULED_KEYS w) = n' - n" by simp
    moreover have "finite (SCHEDULED_KEYS w' - SCHEDULED_KEYS w)"
      by (subst split) (rule finite.insertI [OF fin])
    ultimately show ?thesis using ih sub by auto
  qed
qed

text \<open>With pairwise different keys, the jobs added are those of the offsets still ahead and
  not yet in the ledger, in order.\<close>

lemma offsets_loop_jobs:
  "distinct (map (job_key E fid) ms) \<Longrightarrow>
   offsets_loop E ko h a l fid now ms n w =
     (n + length (filter (\<lambda>m. now < ko - minutes m \<and> job_key E fid m \<notin> SCHEDULED_KEYS w) ms),
      w\<lparr>SCHEDULED_KEYS := SCHEDULED_KEYS w \<union>
           job_key E fid ` set (filter (\<lambda>m. now < ko - minutes m \<and> job_key E fid m \<notin> SCHEDULED_KEYS w) ms),
         job_queue := job_queue w @ map (reminder_job E ko h a l fid)
           (filter (\<lambda>m. now < ko - minutes m \<and> job_key E fid m \<notin> SCHEDULED_KEYS w) ms)\<rparr>)"
proof (induction ms arbitrary: n w)
  case Nil
  then show ?case by simp
next
  case (Cons m ms)
  let ?k = "job_key E fid m"
  from Cons.prems have d: "distinct (map (job_key E fid) ms)" and nk: "?k \<notin> job_key E fid ` set ms"
    by auto
  show ?case
  proof (cases "ko - minutes m \<le> now \<or> ?k \<in> SCHEDULED_KEYS w")
    case True
    then show ?thesis using Cons.IH [OF d, of n w] by (auto simp: offsets_loop_skip simp del: offsets_loop.simps)
  next
    case False
    let ?w1 = "w\<lparr>SCHEDULED_KEYS := insert ?k (SCHEDULED_KEYS w),
                  job_queue := job_queue w @ [reminder_job E ko h a l fid m]\<rparr>"
    have same: "filter (\<lambda>x. now < ko - minutes x \<and> job_key E fid x \<notin> SCHEDULED_KEYS ?w1) ms =
                filter (\<lambda>x. now < ko - minutes x \<and> job_key E fid x \<notin> SCHEDULED_KEYS w) ms"
      using nk by (intro filter_cong) (auto simp: image_iff)
    note ih = Cons.IH [OF d, of "n + 1" ?w1, unfolded same]
    from False have ok: "now < ko - minutes m" "?k \<notin> SCHEDULED_KEYS w" by auto
    show ?thesis
      unfolding offsets_loop_take [OF False] ih by (simp add: ok)
  qed
qed

lemma str_int_offsets: "str_int 60 = ''60''" "str_int 15 = ''15''" "str_int 0 = ''0''"
  by code_simp+

lemma distinct_offset_keys: "distinct (map (job_key E fid) REMINDER_OFFSETS)"
  by (simp add: REMINDER_OFFSETS_def job_key_def str_int_offsets)

lemma schedule_wellformed:
  assumes "fixture_kickoff E fx = Inr ko"
    and "getpath fx [''teams'', ''home'', ''name''] = Inr home"
    and "getpath fx [''teams'', ''away'', ''name''] = Inr away"
    and "getpath fx [''league'', ''name''] = Inr league"
    and "getpath fx [''fixture'', ''id''] = Inr fixture_id"
  shows "schedule_reminders_for_fixture E fx w =
     (if ko \<le> clock E (tick w) then (0, w\<lparr>tick := Suc (tick w)\<rparr>)
      else offsets_loop E ko home away league fixture_id (clock E (tick w)) REMINDER_OFFSETS 0
             (w\<lparr>tick := Suc (tick w)\<rparr>))"
  unfolding schedule_reminders_for_fixture_def using assms by (simp add: Let_def)

lemma schedule_malformed:
  assumes "fixture_kickoff E fx = Inl e
    \<or> getpath fx [''teams'', ''home'', ''name''] = Inl e
    \<or> getpath fx [''teams'', ''away'', ''name''] = Inl e
    \<or> getpath fx [''league'', ''name''] = Inl e
    \<or> getpath fx [''fixture'', ''id''] = Inl e"
  shows "schedule_reminders_for_fixture E fx w = (0, w)"
  unfolding schedule_reminders_for_fixture_def using assms
  by (auto split: sum.splits)

lemma schedule_cases:
  obtains (malformed) "\<And>v. schedule_reminders_for_fixture E fx v = (0, v)"
  | (wellformed) ko home away league fixture_id where
      "fixture_kickoff E fx = Inr ko"
      "getpath fx [''teams'', ''home'', ''name''] = Inr home"
      "getpath fx [''teams'', ''away'', ''name''] = Inr away"
      "getpath fx [''league'', ''name''] = Inr league"
      "getpath fx [''fixture'', ''id''] = Inr fixture_id"
      "schedule_reminders_for_fixture E fx w =
        (if ko \<le> clock E (tick w) then (0, w\<lparr>tick := Suc (tick w)\<rparr>)
         else offsets_loop E ko home away league fixture_id (clock E (tick w)) REMINDER_OFFSETS 0
             (w\<lparr>tick := Suc (tick w)\<rparr>))"
proof (cases "\<exists>ko home away league fixture_id. fixture_kickoff E fx = Inr ko \<and>
      getpath fx [''teams'', ''home'', ''name''] = Inr home \<and>
      getpath fx [''teams'', ''away'', ''name''] = Inr away \<and>
      getpath fx [''league'', ''name''] = Inr league \<and>
      getpath fx [''fixture'', ''id''] = Inr fixture_id")
  case True
  then obtain ko home away league fixture_id where h:
      "fixture_kickoff E fx = Inr ko"
      "getpath fx [''teams'', ''home'', ''name''] = Inr home"
      "getpath fx [''teams'', ''away'', ''name''] = Inr away"
      "getpath fx [''league'', ''name''] = Inr league"
      "getpath fx [''fixture'', ''id''] = Inr fixture_id" by blast
  from wellformed [OF h schedule_wellformed [OF h]] show ?thesis .
next
  case False
  then have "\<And>v. schedule_reminders_for_fixture E fx v = (0, v)"
    unfolding schedule_reminders_for_fixture_def by (auto split: sum.splits)
  then show ?thesis by (rule malformed)
qed

section \<open>Planning one fixture\<close>

text \<open>
  C10. For every fixture record, state and clock, \<^verbatim>\<open>schedule_reminders_for_fixture\<close>
  returns a count of at most the number of offsets, which is 3; no key leaves the ledger,
  and the keys that the call adds to it are exactly as many as the count it returns.
\<close>

theorem count_matches_ledger_growth:
  "fst (schedule_reminders_for_fixture E fx w) \<le> length REMINDER_OFFSETS \<and>
   length REMINDER_OFFSETS = 3 \<and>
   SCHEDULED_KEYS w \<subseteq> SCHEDULED_KEYS (snd (schedule_reminders_for_fixture E fx w)) \<and>
   finite (SCHEDULED_KEYS (snd (schedule_reminders_for_fixture E fx w)) - SCHEDULED_KEYS w) \<and>
   card (SCHEDULED_KEYS (snd (schedule_reminders_for_fixture E fx w)) - SCHEDULED_KEYS w) =
     fst (schedule_reminders_for_fixture E fx w)"
proof (cases rule: schedule_cases [where E = E and fx = fx and w = w])
  case malformed
  from malformed [of w] show ?thesis by (simp add: REMINDER_OFFSETS_def)
next
  case (wellformed ko home away league fixture_id)
  show ?thesis
  proof (cases "ko \<le> clock E (tick w)")
    case True
    with wellformed(6) show ?thesis by (simp add: REMINDER_OFFSETS_def)
  next
    case False
    obtain n w' where r: "schedule_reminders_for_fixture E fx w = (n, w')"
      by (cases "schedule_reminders_for_fixture E fx w")
    with False wellformed(6)
    have "offsets_loop E ko home away league fixture_id (clock E (tick w)) REMINDER_OFFSETS 0
             (w\<lparr>tick := Suc (tick w)\<rparr>) = (n, w')" by simp
    from offsets_loop_count [OF this] show ?thesis
      by (simp add: r REMINDER_OFFSETS_def)
  qed
qed

theorem count_matches_ledger_growth_example:
  "fst (schedule_reminders_for_fixture (demo_env 1761472200000000)
         (demo_fixture 7 ''2025-10-26T10:00:00Z'') initial_world) = 1 \<and>
   card (SCHEDULED_KEYS (snd (schedule_reminders_for_fixture (demo_env 1761472200000000)
         (demo_fixture 7 ''2025-10-26T10:00:00Z'') initial_world)) - SCHEDULED_KEYS initial_world) = 1"
proof -
  have "fst (schedule_reminders_for_fixture (demo_env 1761472200000000)
         (demo_fixture 7 ''2025-10-26T10:00:00Z'') initial_world) = 1"
    by code_simp
  with count_matches_ledger_growth [of "demo_env 1761472200000000"
         "demo_fixture 7 ''2025-10-26T10:00:00Z''" initial_world]
  show ?thesis by simp
qed

text \<open>
  C3. For a fixture record whose fields can be read, with kickoff \<open>ko\<close>: when the kickoff
  is not after the clock reading the call schedules nothing; otherwise the jobs it appends
  are those of the offsets \<open>m\<close> with \<open>now < ko - m\<close> minutes whose key is not yet in the
  ledger, in the order of the offsets, and the count is their number. An offset whose
  delivery instant has passed is left out without touching the others. With kickoff 14:00
  and the clock at 13:50 only the job of offset 0 is registered; at 14:05 none is.
\<close>

theorem past_window_skip:
  assumes "fixture_kickoff E fx = Inr ko"
    and "getpath fx [''teams'', ''home'', ''name''] = Inr home"
    and "getpath fx [''teams'', ''away'', ''name''] = Inr away"
    and "getpath fx [''league'', ''name''] = Inr league"
    and "getpath fx [''fixture'', ''id''] = Inr fixture_id"
  shows "schedule_reminders_for_fixture E fx w =
     (if ko \<le> clock E (tick w) then (0, w\<lparr>tick := Suc (tick w)\<rparr>)
      else (length (planned E w ko fixture_id (clock E (tick w))),
            w\<lparr>tick := Suc (tick w),
              SCHEDULED_KEYS := SCHEDULED_KEYS w \<union>
                job_key E fixture_id ` set (planned E w ko fixture_id (clock E (tick w))),
              job_queue := job_queue w @ map (reminder_job E ko home away league fixture_id)
                (planned E w ko fixture_id (clock E (tick w)))\<rparr>))"
  unfolding schedule_wellformed [OF assms] planned_def
  by (simp add: offsets_loop_jobs [OF distinct_offset_keys] del: offsets_loop.simps)

theorem past_window_skip_witness:
  "fixture_kickoff (demo_env 1761472200000000) (demo_fixture 7 ''2025-10-26T10:00:00Z'')
     = Inr 1761472800000000 \<and>
   clock (demo_env 1761472200000000) (tick initial_world) = 1761472200000000 \<and>
   planned (demo_env 1761472200000000) initial_world 1761472800000000 (JInt 7) 1761472200000000 = [0] \<and>
   schedule_reminders_for_fixture (demo_env 1761472200000000)
       (demo_fixture 7 ''2025-10-26T10:00:00Z'') initial_world =
     (1, initial_world\<lparr>tick := 1, SCHEDULED_KEYS := {''7:0''},
           job_queue := [reminder_job (demo_env 1761472200000000) 1761472800000000
              (JStr ''Sevilla'') (JStr ''Getafe'') (JStr ''La Liga'') (JInt 7) 0]\<rparr>) \<and>
   schedule_reminders_for_fixture (demo_env 1761473100000000)
       (demo_fixture 7 ''2025-10-26T10:00:00Z'') initial_world =
     (0, initial_world\<lparr>tick := 1\<rparr>)"
proof -
  let ?fx = "demo_fixture 7 ''2025-10-26T10:00:00Z''"
  have k: "\<And>t. fixture_kickoff (demo_env t) ?fx = Inr 1761472800000000"
    by (simp add: fixture_kickoff_def demo_env_def demo_fixture_def demo_fromisoformat_def replace_Z_def)
  have h: "getpath ?fx [''teams'', ''home'', ''name''] = Inr (JStr ''Sevilla'')"
    by (simp add: demo_fixture_def)
  have a: "getpath ?fx [''teams'', ''away'', ''name''] = Inr (JStr ''Getafe'')"
    by (simp add: demo_fixture_def)
  have l: "getpath ?fx [''league'', ''name''] = Inr (JStr ''La Liga'')"
    by (simp add: demo_fixture_def)
  have i: "getpath ?fx [''fixture'', ''id''] = Inr (JInt 7)"
    by (simp add: demo_fixture_def)
  have c: "\<And>t. clock (demo_env t) (tick initial_world) = t"
    by (simp add: demo_env_def initial_world_def)
  have p: "planned (demo_env 1761472200000000) initial_world 1761472800000000 (JInt 7)
             1761472200000000 = [0]"
    by (simp add: planned_def REMINDER_OFFSETS_def minutes_def initial_world_def)
  have key: "job_key (demo_env 1761472200000000) (JInt 7) 0 = ''7:0''"
    by code_simp
  note sel = initial_world_sel
  have c0: "\<And>t. clock (demo_env t) 0 = t"
    by (simp add: demo_env_def)
  have r1: "schedule_reminders_for_fixture (demo_env 1761472200000000) ?fx initial_world =
     (1, initial_world\<lparr>tick := 1, SCHEDULED_KEYS := {''7:0''},
           job_queue := [reminder_job (demo_env 1761472200000000) 1761472800000000
              (JStr ''Sevilla'') (JStr ''Getafe'') (JStr ''La Liga'') (JInt 7) 0]\<rparr>)"
    unfolding past_window_skip [OF k h a l i] c p by (simp add: key sel)
  have r2: "schedule_reminders_for_fixture (demo_env 1761473100000000) ?fx initial_world =
     (0, initial_world\<lparr>tick := 1\<rparr>)"
    unfolding past_window_skip [OF k h a l i] c by (simp add: sel)
  show ?thesis
    by (simp only: k c p r1 r2 simp_thms)
qed

section \<open>The fixtures loop\<close>

lemma fixtures_loop_append:
  "fixtures_loop E today (xs @ ys) tot w =
   (case fixtures_loop E today xs tot w of (t, w') \<Rightarrow> fixtures_loop E today ys t w')"
  by (induction xs arbitrary: tot w) (auto split: sum.splits prod.splits)

lemma kickoff_needs_date:
  "getpath fx [''fixture'', ''date''] = Inl e \<Longrightarrow> fixture_kickoff E fx = Inl e"
  by (simp add: fixture_kickoff_def)

lemma missing_field_schedules_nothing:
  assumes "p \<in> set required_fields" and "getpath fx p = Inl e"
  shows "schedule_reminders_for_fixture E fx w = (0, w)"
proof -
  from assms have "fixture_kickoff E fx = Inl e
    \<or> getpath fx [''teams'', ''home'', ''name''] = Inl e
    \<or> getpath fx [''teams'', ''away'', ''name''] = Inl e
    \<or> getpath fx [''league'', ''name''] = Inl e
    \<or> getpath fx [''fixture'', ''id''] = Inl e"
    unfolding required_fields_def using kickoff_needs_date [of fx e E] by auto
  then show ?thesis by (rule schedule_malformed)
qed

lemma fixtures_loop_noop:
  assumes "schedule_reminders_for_fixture E fx w = (0, w)"
  shows "fixtures_loop E today (fx # rest) tot w = fixtures_loop E today rest tot w"
  using assms by (simp split: sum.splits)

text \<open>
  C4. When one of the fields that the planner reads (fixture date, home and away team
  name, league name, fixture id) is missing from a record, the planner returns 0 and the
  state it was given, ledger included, without raising; and the loop over the fetched
  fixtures goes on as if the record were not in the list.
\<close>

theorem malformed_fixture_skipped:
  assumes "p \<in> set required_fields" and "getpath fx p = Inl e"
  shows "schedule_reminders_for_fixture E fx w = (0, w) \<and>
         fixtures_loop E today (before @ fx # after) tot w0 =
         fixtures_loop E today (before @ after) tot w0"
proof
  show "schedule_reminders_for_fixture E fx w = (0, w)"
    using assms by (rule missing_field_schedules_nothing)
next
  obtain t w1 where pre: "fixtures_loop E today before tot w0 = (t, w1)"
    by (cases "fixtures_loop E today before tot w0")
  have "schedule_reminders_for_fixture E fx w1 = (0, w1)"
    using assms by (rule missing_field_schedules_nothing)
  then have "fixtures_loop E today (fx # after) t w1 = fixtures_loop E today after t w1"
    by (rule fixtures_loop_noop)
  then show "fixtures_loop E today (before @ fx # after) tot w0 =
         fixtures_loop E today (before @ after) tot w0"
    by (simp only: fixtures_loop_append pre prod.case)
qed

theorem malformed_fixture_skipped_witness:
  "[''teams'', ''home'', ''name''] \<in> set required_fields \<and>
   getpath demo_broken_fixture [''teams'', ''home'', ''name''] = Inl KeyError \<and>
   schedule_reminders_for_fixture (demo_env 1761472200000000) demo_broken_fixture initial_world
     = (0, initial_world) \<and>
   fst (fixtures_loop (demo_env 1761472200000000) 20387
        [demo_broken_fixture, demo_fixture 7 ''2025-10-26T10:00:00Z''] 0 initial_world) = 1"
proof -
  have p: "[''teams'', ''home'', ''name''] \<in> set required_fields"
    by (simp add: required_fields_def)
  have g: "getpath demo_broken_fixture [''teams'', ''home'', ''name''] = Inl KeyError"
    by (simp add: demo_broken_fixture_def)
  note T = malformed_fixture_skipped [OF p g, of "demo_env 1761472200000000" initial_world 20387
      "[]" "[demo_fixture 7 ''2025-10-26T10:00:00Z'']" 0 initial_world]
  have "fst (fixtures_loop (demo_env 1761472200000000) 20387
        [demo_fixture 7 ''2025-10-26T10:00:00Z''] 0 initial_world) = 1"
    by code_simp
  with T p g show ?thesis by simp
qed

text \<open>
  C8. The loop over the fetched fixtures plans exactly the records whose kickoff, as an
  instant of the reference timezone, falls on today's local date: a record of another
  local day (or one whose date cannot be read) has no effect on the outcome.
\<close>

theorem other_day_fixtures_excluded:
  "fixtures_loop E today fxs tot w =
   fixtures_loop E today (filter (kicks_off_on E today) fxs) tot w"
proof (induction fxs arbitrary: tot w)
  case Nil
  show ?case by simp
next
  case (Cons fx fxs)
  show ?case
  proof (cases "kicks_off_on E today fx")
    case True
    then obtain ko where "fixture_kickoff E fx = Inr ko" "local_date ko = today"
      by (auto simp: kicks_off_on_def split: sum.splits)
    with True show ?thesis by (simp add: Cons.IH split: prod.splits)
  next
    case False
    then have "fixtures_loop E today (fx # fxs) tot w = fixtures_loop E today fxs tot w"
      by (auto simp: kicks_off_on_def split: sum.splits)
    with False show ?thesis by (simp add: Cons.IH del: fixtures_loop.simps)
  qed
qed

theorem other_day_fixtures_excluded_example:
  "\<not> kicks_off_on (demo_env 1761472200000000) 20387 (demo_fixture 8 ''2025-10-26T21:00:00Z'') \<and>
   fixtures_loop (demo_env 1761472200000000) 20387
     [demo_fixture 8 ''2025-10-26T21:00:00Z'', demo_fixture 7 ''2025-10-26T10:00:00Z''] 0 initial_world =
   fixtures_loop (demo_env 1761472200000000) 20387
     [demo_fixture 7 ''2025-10-26T10:00:00Z''] 0 initial_world"
proof -
  let ?E = "demo_env 1761472200000000"
  let ?late = "demo_fixture 8 ''2025-10-26T21:00:00Z''"
  let ?today = "demo_fixture 7 ''2025-10-26T10:00:00Z''"
  have a: "\<not> kicks_off_on ?E 20387 ?late"
    by code_simp
  have b: "kicks_off_on ?E 20387 ?today"
    by code_simp
  have f: "filter (kicks_off_on ?E 20387) [?late, ?today] = [?today]"
    using a b by simp
  have "fixtures_loop ?E 20387 [?late, ?today] 0 initial_world =
        fixtures_loop ?E 20387 (filter (kicks_off_on ?E 20387) [?late, ?today]) 0 initial_world"
    by (rule other_day_fixtures_excluded)
  then have "fixtures_loop ?E 20387 [?late, ?today] 0 initial_world =
        fixtures_loop ?E 20387 [?today] 0 initial_world"
    by (simp only: f)
  with a show ?thesis by (rule conjI)
qed

section \<open>Broadcasts\<close>

lemma send_all_sends:
  "sends (send_all E warn msg chats w) = sends w @ attempts E msg (tick w) chats"
  by (induction chats arbitrary: w) auto

lemma send_all_frame:
  "SUBSCRIBERS (send_all E warn msg chats w) = SUBSCRIBERS w \<and>
   SCHEDULED_KEYS (send_all E warn msg chats w) = SCHEDULED_KEYS w \<and>
   job_queue (send_all E warn msg chats w) = job_queue w \<and>
   LEAGUES_CACHE (send_all E warn msg chats w) = LEAGUES_CACHE w \<and>
   tick (send_all E warn msg chats w) = tick w + length chats"
  by (induction chats arbitrary: w) auto

lemma attempts_chats: "map fst (attempts E msg t chats) = chats"
  by (induction chats arbitrary: t) auto

lemma attempts_length: "length (attempts E msg t chats) = length chats"
  by (induction chats arbitrary: t) auto

lemma attempts_nth:
  "i < length chats \<Longrightarrow>
   attempts E msg t chats ! i = (chats ! i, msg, send_message E (t + i) (chats ! i) msg)"
proof (induction chats arbitrary: t i)
  case Nil
  then show ?case by simp
next
  case (Cons c cs)
  then show ?case by (cases i) auto
qed

text \<open>
  C6. A broadcast, be it a reminder that fires or the digest, calls \<^verbatim>\<open>send_message\<close> once
  for every subscriber of the list it was given, in order, whatever the outcome of the other
  calls: the trace of calls it appends names every chat once and records for each whether the
  delivery worked. The broadcast itself always returns a state: no failure of a delivery
  leaves it as an exception.
\<close>

theorem broadcast_reaches_every_subscriber:
  "sends (send_all E warn msg chats w) = sends w @ attempts E msg (tick w) chats \<and>
   sends (send_reminder_job E d w) = sends w @ attempts E (Reminder d) (tick w) (SUBSCRIBERS w) \<and>
   map fst (attempts E msg t chats) = chats \<and>
   length (attempts E msg t chats) = length chats"
  by (simp add: send_all_sends send_reminder_job_def attempts_chats attempts_length)

theorem broadcast_reaches_every_subscriber_example:
  "sends (send_reminder_job (demo_env 0) demo_reminder (initial_world\<lparr>SUBSCRIBERS := [2, 1, 3]\<rparr>)) =
     [(2, Reminder demo_reminder, False), (1, Reminder demo_reminder, True),
      (3, Reminder demo_reminder, True)]"
proof -
  let ?w = "initial_world\<lparr>SUBSCRIBERS := [2, 1, 3]\<rparr>"
  have "sends (send_reminder_job (demo_env 0) demo_reminder ?w) =
        sends ?w @ attempts (demo_env 0) (Reminder demo_reminder) (tick ?w) (SUBSCRIBERS ?w)"
    using broadcast_reaches_every_subscriber [of "demo_env 0" ReminderSendFailed
       "Reminder demo_reminder" "[]" ?w demo_reminder 0] by (rule conjunct1 [OF conjunct2])
  also have "\<dots> = [(2, Reminder demo_reminder, False), (1, Reminder demo_reminder, True),
      (3, Reminder demo_reminder, True)]"
    by (simp add: initial_world_sel demo_env_def)
  finally show ?thesis .
qed

section \<open>The season of a league\<close>

text \<open>
  C7. The orchestrator is to fetch the fixtures of a league for its latest season, as the
  source says of itself (\<^verbatim>\<open># pick latest season year\<close>); the step takes the season that
  is listed last. For the league record whose seasons are listed as 2025, 2024 the step
  requests the fixtures of season 2024, whatever the provider, the day and the state, while
  the latest (maximum) season year of the league is 2025.
\<close>

theorem season_fetched_is_last_listed:
  "league_step E today country (demo_league 140 ''La Liga'' [2025, 2024]) tot w =
     (case get_today_fixtures_for_league E (tick w) (JInt 140) (JInt 2024) today of
        Inl e \<Rightarrow>
          Return tot (w\<lparr>log := log w @ [FixturesFetchFailed country (JStr ''La Liga'') e],
                        tick := Suc (tick w)\<rparr>)
      | Inr fixtures \<Rightarrow>
          (case py_iter fixtures of
             Inl e \<Rightarrow> Raise e (w\<lparr>tick := Suc (tick w)\<rparr>)
           | Inr fxs \<Rightarrow>
               (case fixtures_loop E today fxs tot (w\<lparr>tick := Suc (tick w)\<rparr>) of
                  (t, w2) \<Rightarrow> Return t w2))) \<and>
   Max (set [2025, 2024]) = (2025 :: int)"
  by (simp add: league_step_def demo_league_def pick_season_def Let_def split: sum.splits)

theorem season_fetched_is_last_listed_witness:
  "get_today_fixtures_for_league season_probe_env 0 (JInt 140) (JInt 2025) 20387 =
     Inr (JList [demo_fixture 7 ''2025-10-26T10:00:00Z'']) \<and>
   get_today_fixtures_for_league season_probe_env 0 (JInt 140) (JInt 2024) 20387 = Inl HTTPError \<and>
   league_step season_probe_env 20387 ''Spain'' (demo_league 140 ''La Liga'' [2025, 2024]) 0
       initial_world =
     Return 0 (initial_world\<lparr>log := [FixturesFetchFailed ''Spain'' (JStr ''La Liga'') HTTPError],
                 tick := 1\<rparr>) \<and>
   (case league_step season_probe_env 20387 ''Spain'' (demo_league 140 ''La Liga'' [2024, 2025]) 0
       initial_world of
      Return t w' \<Rightarrow> t = 1 \<and> map job_name (job_queue w') = [''fx:7:0'']
    | Raise e w' \<Rightarrow> False)"
proof -
  let ?E = season_probe_env
  have a: "get_today_fixtures_for_league ?E 0 (JInt 140) (JInt 2025) 20387 =
     Inr (JList [demo_fixture 7 ''2025-10-26T10:00:00Z''])"
    by (simp add: get_today_fixtures_for_league_def season_probe_env_def season_probe_api_def)
  have b: "get_today_fixtures_for_league ?E 0 (JInt 140) (JInt 2024) 20387 = Inl HTTPError"
    by (simp add: get_today_fixtures_for_league_def season_probe_env_def season_probe_api_def)
  have c: "league_step ?E 20387 ''Spain'' (demo_league 140 ''La Liga'' [2025, 2024]) 0 initial_world =
     Return 0 (initial_world\<lparr>log := [FixturesFetchFailed ''Spain'' (JStr ''La Liga'') HTTPError],
                 tick := 1\<rparr>)"
    using conjunct1 [OF season_fetched_is_last_listed [of ?E 20387 "''Spain''" 0 initial_world]]
    by (simp add: b initial_world_sel)
  have d: "(case league_step ?E 20387 ''Spain'' (demo_league 140 ''La Liga'' [2024, 2025]) 0
       initial_world of
      Return t w' \<Rightarrow> t = 1 \<and> map job_name (job_queue w') = [''fx:7:0'']
    | Raise e w' \<Rightarrow> False)"
    by code_simp
  from a b c d show ?thesis by (intro conjI)
qed

section \<open>What a cycle adds to the queue\<close>

lemma extends_refl: "extends E w w 0"
  by (simp add: extends_def)

lemma extends_inert:
  "SUBSCRIBERS w' = SUBSCRIBERS w \<Longrightarrow> sends w' = sends w \<Longrightarrow>
   SCHEDULED_KEYS w' = SCHEDULED_KEYS w \<Longrightarrow> job_queue w' = job_queue w \<Longrightarrow>
   tick w \<le> tick w' \<Longrightarrow> extends E w w' 0"
  by (simp add: extends_def)

lemma extends_trans:
  assumes "extends E w w1 n" and "extends E w1 w2 m"
  shows "extends E w w2 (n + m)"
proof -
  from assms(1) obtain js where js: "job_queue w1 = job_queue w @ js" "length js = n"
    "distinct (map job_name js)"
    "\<forall>j \<in> set js. job_name j = ''fx:'' @ keyed E j \<and>
        keyed E j \<in> SCHEDULED_KEYS w1 \<and> keyed E j \<notin> SCHEDULED_KEYS w"
    unfolding extends_def by blast
  from assms(2) obtain ks where ks: "job_queue w2 = job_queue w1 @ ks" "length ks = m"
    "distinct (map job_name ks)"
    "\<forall>j \<in> set ks. job_name j = ''fx:'' @ keyed E j \<and>
        keyed E j \<in> SCHEDULED_KEYS w2 \<and> keyed E j \<notin> SCHEDULED_KEYS w1"
    unfolding extends_def by blast
  from assms have sub: "SCHEDULED_KEYS w \<subseteq> SCHEDULED_KEYS w1" "SCHEDULED_KEYS w1 \<subseteq> SCHEDULED_KEYS w2"
    unfolding extends_def by blast+
  have disj: "set (map job_name js) \<inter> set (map job_name ks) = {}"
  proof (rule ccontr)
    assume "set (map job_name js) \<inter> set (map job_name ks) \<noteq> {}"
    then obtain a b where ab: "a \<in> set js" "b \<in> set ks" "job_name a = job_name b" by auto
    with js(4) ks(4) have "''fx:'' @ keyed E a = ''fx:'' @ keyed E b" by metis
    then have "keyed E a = keyed E b" by simp
    with ab js(4) ks(4) show False by metis
  qed
  have "job_queue w2 = job_queue w @ (js @ ks)" using js(1) ks(1) by simp
  moreover have "length (js @ ks) = n + m" using js(2) ks(2) by simp
  moreover have "distinct (map job_name (js @ ks))" using js(3) ks(3) disj by simp
  moreover have "\<forall>j \<in> set (js @ ks). job_name j = ''fx:'' @ keyed E j \<and>
        keyed E j \<in> SCHEDULED_KEYS w2 \<and> keyed E j \<notin> SCHEDULED_KEYS w"
    using js(4) ks(4) sub by auto
  moreover have "SUBSCRIBERS w2 = SUBSCRIBERS w" "sends w2 = sends w" "tick w \<le> tick w2"
    "SCHEDULED_KEYS w \<subseteq> SCHEDULED_KEYS w2"
    using assms unfolding extends_def by auto
  ultimately show ?thesis unfolding extends_def by blast
qed

lemma extends_trans0: "extends E w w1 0 \<Longrightarrow> extends E w1 w2 m \<Longrightarrow> extends E w w2 m"
  using extends_trans [of E w w1 0 w2 m] by simp

lemma extends_trans0': "extends E w w1 n \<Longrightarrow> extends E w1 w2 0 \<Longrightarrow> extends E w w2 n"
  using extends_trans [of E w w1 n w2 0] by simp

lemma extends_one:
  assumes "job_key E fid m \<notin> SCHEDULED_KEYS w"
  shows "extends E w (w\<lparr>SCHEDULED_KEYS := insert (job_key E fid m) (SCHEDULED_KEYS w),
        job_queue := job_queue w @ [reminder_job E ko h a l fid m]\<rparr>) 1"
proof -
  have k: "keyed E (reminder_job E ko h a l fid m) = job_key E fid m"
    by (simp add: keyed_def reminder_job_def)
  have n: "job_name (reminder_job E ko h a l fid m) = ''fx:'' @ job_key E fid m"
    by (simp add: reminder_job_def job_key_def)
  show ?thesis
    unfolding extends_def using assms k n
    by (intro conjI exI [of _ "[reminder_job E ko h a l fid m]"]) auto
qed

lemma extends_offsets_loop:
  "offsets_loop E ko h a l fid now ms n w = (n', w') \<Longrightarrow> n \<le> n' \<and> extends E w w' (n' - n)"
proof (induction ms arbitrary: n w)
  case Nil
  then show ?case by (simp add: extends_refl)
next
  case (Cons m ms)
  show ?case
  proof (cases "ko - minutes m \<le> now \<or> job_key E fid m \<in> SCHEDULED_KEYS w")
    case True
    with Cons.prems have "offsets_loop E ko h a l fid now ms n w = (n', w')"
      by (simp only: offsets_loop_skip)
    then show ?thesis by (rule Cons.IH)
  next
    case False
    let ?w1 = "w\<lparr>SCHEDULED_KEYS := insert (job_key E fid m) (SCHEDULED_KEYS w),
                  job_queue := job_queue w @ [reminder_job E ko h a l fid m]\<rparr>"
    from Cons.prems have "offsets_loop E ko h a l fid now ms (n + 1) ?w1 = (n', w')"
      by (simp only: offsets_loop_take [OF False])
    from Cons.IH [OF this] have le: "n + 1 \<le> n'" and ex: "extends E ?w1 w' (n' - (n + 1))"
      by simp_all
    from False have "extends E w ?w1 1" by (intro extends_one) simp
    from extends_trans [OF this ex] have "extends E w w' (1 + (n' - (n + 1)))" .
    moreover from le have "1 + (n' - (n + 1)) = n' - n" by simp
    ultimately show ?thesis using le by simp
  qed
qed

lemma extends_schedule:
  "schedule_reminders_for_fixture E fx w = (n, w') \<Longrightarrow> extends E w w' n"
proof (cases rule: schedule_cases [where E = E and fx = fx and w = w])
  case malformed
  assume "schedule_reminders_for_fixture E fx w = (n, w')"
  with malformed [of w] show ?thesis by (simp add: extends_refl)
next
  case (wellformed ko home away league fixture_id)
  assume r: "schedule_reminders_for_fixture E fx w = (n, w')"
  have t: "extends E w (w\<lparr>tick := Suc (tick w)\<rparr>) 0"
    by (rule extends_inert) simp_all
  show ?thesis
  proof (cases "ko \<le> clock E (tick w)")
    case True
    with wellformed(6) r t show ?thesis by simp
  next
    case False
    with wellformed(6) r
    have "offsets_loop E ko home away league fixture_id (clock E (tick w)) REMINDER_OFFSETS 0
             (w\<lparr>tick := Suc (tick w)\<rparr>) = (n, w')" by simp
    from extends_offsets_loop [OF this] have "extends E (w\<lparr>tick := Suc (tick w)\<rparr>) w' n" by simp
    with t show ?thesis by (rule extends_trans0)
  qed
qed

lemma extends_fixtures_loop:
  "fixtures_loop E today fxs tot w = (tot', w') \<Longrightarrow> tot \<le> tot' \<and> extends E w w' (tot' - tot)"
proof (induction fxs arbitrary: tot w)
  case Nil
  then show ?case by (simp add: extends_refl)
next
  case (Cons fx fxs)
  show ?case
  proof (cases "kicks_off_on E today fx")
    case False
    then have "fixtures_loop E today (fx # fxs) tot w = fixtures_loop E today fxs tot w"
      by (auto simp: kicks_off_on_def split: sum.splits)
    with Cons.prems have "fixtures_loop E today fxs tot w = (tot', w')" by simp
    then show ?thesis by (rule Cons.IH)
  next
    case True
    obtain n w1 where s: "schedule_reminders_for_fixture E fx w = (n, w1)"
      by (cases "schedule_reminders_for_fixture E fx w")
    from True s have "fixtures_loop E today (fx # fxs) tot w = fixtures_loop E today fxs (tot + n) w1"
      by (auto simp: kicks_off_on_def split: sum.splits)
    with Cons.prems have "fixtures_loop E today fxs (tot + n) w1 = (tot', w')" by simp
    from Cons.IH [OF this] have le: "tot + n \<le> tot'" and ex: "extends E w1 w' (tot' - (tot + n))"
      by simp_all
    from extends_trans [OF extends_schedule [OF s] ex]
    have "extends E w w' (n + (tot' - (tot + n)))" .
    moreover from le have "n + (tot' - (tot + n)) = tot' - tot" by simp
    ultimately show ?thesis using le by simp
  qed
qed

lemma ledger_ok_extends:
  assumes "ledger_ok E w" and "extends E w w' n"
  shows "ledger_ok E w'"
proof -
  from assms(2) obtain js where js: "job_queue w' = job_queue w @ js"
    "distinct (map job_name js)"
    "\<forall>j \<in> set js. job_name j = ''fx:'' @ keyed E j \<and>
        keyed E j \<in> SCHEDULED_KEYS w' \<and> keyed E j \<notin> SCHEDULED_KEYS w"
    and sub: "SCHEDULED_KEYS w \<subseteq> SCHEDULED_KEYS w'"
    unfolding extends_def by blast
  from assms(1) have old: "distinct (map job_name (job_queue w))"
    "\<forall>j \<in> set (job_queue w). job_name j = ''fx:'' @ keyed E j \<and> keyed E j \<in> SCHEDULED_KEYS w"
    unfolding ledger_ok_def by simp_all
  have disj: "set (map job_name (job_queue w)) \<inter> set (map job_name js) = {}"
  proof (rule ccontr)
    assume "set (map job_name (job_queue w)) \<inter> set (map job_name js) \<noteq> {}"
    then obtain a b where ab: "a \<in> set (job_queue w)" "b \<in> set js" "job_name a = job_name b"
      by auto
    with old(2) js(3) have "''fx:'' @ keyed E a = ''fx:'' @ keyed E b" by metis
    then have "keyed E a = keyed E b" by simp
    with ab old(2) js(3) show False by metis
  qed
  show ?thesis
    unfolding ledger_ok_def js(1) using old js(2,3) sub disj by auto
qed

lemma extends_tick:
  "extends E w w1 n \<Longrightarrow> extends E w (w1\<lparr>tick := Suc (tick w1)\<rparr>) n"
  by (erule extends_trans0') (rule extends_inert, simp_all)

lemma extends_log_tick:
  "extends E w w1 n \<Longrightarrow> extends E w (w1\<lparr>log := x, tick := Suc (tick w1)\<rparr>) n"
  by (erule extends_trans0') (rule extends_inert, simp_all)

lemma pick_season_extends:
  "extends E w (world_of (pick_season E seasons w)) 0"
  unfolding pick_season_def
  by (auto split: sum.splits intro: extends_refl extends_tick)

lemma grows_league_step: "grows E w tot (league_step E today country item tot w)"
proof -
  have ps: "\<And>s y w1. pick_season E s w = Return y w1 \<Longrightarrow> extends E w w1 0"
           "\<And>s e w1. pick_season E s w = Raise e w1 \<Longrightarrow> extends E w w1 0"
    using pick_season_extends [of E w] by (metis world_of.simps(1), metis world_of.simps(2))
  have fl: "\<And>fxs w1 tot' w2. extends E w w1 0 \<Longrightarrow>
      fixtures_loop E today fxs tot (w1\<lparr>tick := Suc (tick w1)\<rparr>) = (tot', w2) \<Longrightarrow>
      tot \<le> tot' \<and> extends E w w2 (tot' - tot)"
    using extends_fixtures_loop extends_tick extends_trans0 by blast
  show ?thesis
    unfolding league_step_def grows_def
    by (auto simp: Let_def split: sum.splits outcome.splits prod.splits
        intro: extends_refl extends_tick extends_log_tick dest: ps fl)
qed

lemma grows_Return: "grows E w tot (Return tot' w') \<longleftrightarrow> tot \<le> tot' \<and> extends E w w' (tot' - tot)"
  by (simp add: grows_def)

lemma grows_Raise: "grows E w tot (Raise e w') \<longleftrightarrow> (\<exists>n. extends E w w' n)"
  by (simp add: grows_def)

lemma grows_trans:
  assumes "tot \<le> tot1" and "extends E w w1 (tot1 - tot)" and "grows E w1 tot1 out"
  shows "grows E w tot out"
proof (cases out)
  case (Return tot' w')
  with assms(3) have le: "tot1 \<le> tot'" and ex: "extends E w1 w' (tot' - tot1)"
    by (simp_all add: grows_def)
  from extends_trans [OF assms(2) ex] have "extends E w w' ((tot1 - tot) + (tot' - tot1))" .
  moreover from assms(1) le have "(tot1 - tot) + (tot' - tot1) = tot' - tot" by simp
  ultimately show ?thesis using Return assms(1) le by (simp add: grows_def)
next
  case (Raise e w')
  with assms(3) obtain n where "extends E w1 w' n" by (auto simp: grows_def)
  from extends_trans [OF assms(2) this] Raise show ?thesis by (auto simp: grows_def)
qed

lemma grows_leagues_loop: "grows E w tot (leagues_loop E today country items tot w)"
proof (induction items arbitrary: tot w)
  case Nil
  show ?case by (simp add: grows_def extends_refl)
next
  case (Cons item items)
  show ?case
  proof (cases "league_step E today country item tot w")
    case (Raise e w')
    with grows_league_step [of E w tot today country item] show ?thesis by simp
  next
    case (Return tot1 w1)
    with grows_league_step [of E w tot today country item]
    have "tot \<le> tot1" "extends E w w1 (tot1 - tot)" by (simp_all add: grows_def)
    from grows_trans [OF this Cons.IH [where w = w1 and tot = tot1]] Return show ?thesis by simp
  qed
qed

lemma grows_countries_loop:
  "grows2 E w (ct + length cache) tot (countries_loop E today cache ct tot w)"
proof (induction cache arbitrary: ct tot w)
  case Nil
  show ?case by (simp add: grows2_def extends_refl)
next
  case (Cons entry cache)
  obtain country leagues where entry: "entry = (country, leagues)" by (cases entry)
  show ?case
  proof (cases "leagues_loop E today country leagues tot w")
    case (Raise e w')
    with grows_leagues_loop [of E w tot today country leagues] entry show ?thesis
      by (simp add: grows2_def grows_def)
  next
    case (Return tot1 w1)
    with grows_leagues_loop [of E w tot today country leagues]
    have le: "tot \<le> tot1" and ex: "extends E w w1 (tot1 - tot)" by (simp_all add: grows_def)
    note ih = Cons.IH [where ct = "ct + 1" and tot = tot1 and w = w1]
    show ?thesis
    proof (cases "countries_loop E today cache (ct + 1) tot1 w1")
      case r: (Return r w')
      with ih have a: "fst r = ct + 1 + length cache" "tot1 \<le> snd r"
        "extends E w1 w' (snd r - tot1)" by (simp_all add: grows2_def)
      from extends_trans [OF ex a(3)] have "extends E w w' ((tot1 - tot) + (snd r - tot1))" .
      moreover from le a(2) have "(tot1 - tot) + (snd r - tot1) = snd r - tot" by simp
      ultimately show ?thesis using entry Return r a le by (simp add: grows2_def)
    next
      case r: (Raise e w')
      with ih obtain n where "extends E w1 w' n" by (auto simp: grows2_def)
      from extends_trans [OF ex this] entry Return r show ?thesis by (auto simp: grows2_def)
    qed
  qed
qed

lemma ensure_extends: "extends E w (ensure_leagues_cache E cs w) 0"
proof (induction cs arbitrary: w)
  case Nil
  show ?case by (simp add: extends_refl)
next
  case (Cons c cs)
  show ?case
  proof (cases "map_of (LEAGUES_CACHE w) c \<noteq> None")
    case True
    then show ?thesis using Cons.IH [of w] by simp
  next
    case False
    show ?thesis
    proof (cases "get_current_leagues_for_country E (tick w) c")
      case (Inl e)
      let ?w1 = "w\<lparr>log := log w @ [CacheFailed c e], tick := Suc (tick w)\<rparr>"
      have "extends E w ?w1 0" by (rule extends_inert) simp_all
      from extends_trans0 [OF this Cons.IH [of ?w1]] False Inl show ?thesis by simp
    next
      case (Inr leagues)
      let ?w1 = "w\<lparr>LEAGUES_CACHE := LEAGUES_CACHE w @ [(c, leagues)],
                  log := log w @ [CachedLeagues (length leagues) c], tick := Suc (tick w)\<rparr>"
      have "extends E w ?w1 0" by (rule extends_inert) simp_all
      from extends_trans0 [OF this Cons.IH [of ?w1]] False Inr show ?thesis by simp
    qed
  qed
qed

lemma grows_pull_fixtures:
  "grows2 E w (length (LEAGUES_CACHE (ensure_leagues_cache E COUNTRIES w))) 0 (pull_fixtures E w)"
proof -
  let ?w1 = "ensure_leagues_cache E COUNTRIES w"
  let ?w2 = "?w1\<lparr>tick := Suc (tick ?w1)\<rparr>"
  let ?today = "local_date (clock E (tick ?w1))"
  have e: "extends E w ?w2 0" by (rule extends_tick [OF ensure_extends])
  have p: "pull_fixtures E w = countries_loop E ?today (LEAGUES_CACHE ?w1) 0 0 ?w2"
    by (simp add: pull_fixtures_def Let_def)
  from grows_countries_loop [of E ?w2 0 "LEAGUES_CACHE ?w1" 0 ?today]
  show ?thesis unfolding p grows2_def using extends_trans0 [OF e]
    by (auto split: outcome.splits)
qed

section \<open>The digest\<close>

lemma extends_jobs_length: "extends E w w' n \<Longrightarrow> length (job_queue w') = length (job_queue w) + n"
  by (auto simp: extends_def)

text \<open>
  C9. When the loops of a cycle have run to their end with the counts
  \<open>countries_touched\<close> and \<open>total_jobs\<close>, the cycle sends the digest carrying both counts to
  every subscriber if there is a subscriber and \<open>total_jobs\<close> is positive, and sends nothing
  otherwise; \<open>total_jobs\<close> is the number of jobs the cycle has added to the queue and
  \<open>countries_touched\<close> the number of cached countries.
\<close>

theorem digest_iff_jobs_and_subscribers:
  assumes "pull_fixtures E w = Return (countries_touched, total_jobs) w1"
  shows "pull_and_schedule E w =
           Return () (if SUBSCRIBERS w \<noteq> [] \<and> 0 < total_jobs
                      then send_all E DigestSendFailed (Digest countries_touched total_jobs)
                             (SUBSCRIBERS w) w1
                      else w1) \<and>
         sends (world_of (pull_and_schedule E w)) =
           sends w @ (if SUBSCRIBERS w \<noteq> [] \<and> 0 < total_jobs
                      then attempts E (Digest countries_touched total_jobs) (tick w1) (SUBSCRIBERS w)
                      else []) \<and>
         length (job_queue w1) = length (job_queue w) + total_jobs \<and>
         countries_touched = length (LEAGUES_CACHE (ensure_leagues_cache E COUNTRIES w))"
proof -
  from grows_pull_fixtures [of E w] assms
  have ct: "countries_touched = length (LEAGUES_CACHE (ensure_leagues_cache E COUNTRIES w))"
    and ex: "extends E w w1 total_jobs"
    by (simp_all add: grows2_def)
  from ex have subs: "SUBSCRIBERS w1 = SUBSCRIBERS w" and snd: "sends w1 = sends w"
    by (simp_all add: extends_def)
  have p: "pull_and_schedule E w =
           Return () (if SUBSCRIBERS w \<noteq> [] \<and> 0 < total_jobs
                      then send_all E DigestSendFailed (Digest countries_touched total_jobs)
                             (SUBSCRIBERS w) w1
                      else w1)"
    by (simp add: pull_and_schedule_def assms subs)
  show ?thesis
    unfolding p using ct extends_jobs_length [OF ex]
    by (simp add: send_all_sends snd)
qed

section \<open>One job per key\<close>

lemma ledger_ok_frame:
  "ledger_ok E w \<Longrightarrow> job_queue w' = job_queue w \<Longrightarrow> SCHEDULED_KEYS w' = SCHEDULED_KEYS w \<Longrightarrow>
   ledger_ok E w'"
  by (simp add: ledger_ok_def)

lemma ledger_ok_pull:
  assumes "ledger_ok E w"
  shows "ledger_ok E (world_of (pull_and_schedule E w))"
proof (cases "pull_fixtures E w")
  case (Raise e w')
  with grows_pull_fixtures [of E w] obtain n where "extends E w w' n"
    by (auto simp: grows2_def)
  with assms have "ledger_ok E w'" by (rule ledger_ok_extends)
  with Raise show ?thesis by (simp add: pull_and_schedule_def)
next
  case (Return r w')
  with grows_pull_fixtures [of E w] have "extends E w w' (snd r)"
    by (simp add: grows2_def)
  with assms have ok: "ledger_ok E w'" by (rule ledger_ok_extends)
  obtain c n where r: "r = (c, n)" by (cases r)
  have "ledger_ok E (send_all E DigestSendFailed (Digest c n) (SUBSCRIBERS w') w')"
    using ok by (rule ledger_ok_frame) (simp_all add: send_all_frame)
  with ok Return r show ?thesis by (simp add: pull_and_schedule_def)
qed

lemma ledger_ok_step: "ledger_ok E w \<Longrightarrow> ledger_ok E (step E ev w)"
proof (cases ev)
  case Pull
  assume "ledger_ok E w"
  with Pull show ?thesis by (simp add: ledger_ok_pull)
next
  case (LiveOn c)
  assume "ledger_ok E w"
  then show ?thesis unfolding LiveOn by (rule ledger_ok_frame) simp_all
next
  case (LiveOff c)
  assume "ledger_ok E w"
  then show ?thesis unfolding LiveOff by (rule ledger_ok_frame) simp_all
next
  case (Fire d)
  assume "ledger_ok E w"
  then show ?thesis unfolding Fire
    by (rule ledger_ok_frame) (simp_all add: send_reminder_job_def send_all_frame)
qed

lemma ledger_ok_run: "ledger_ok E w \<Longrightarrow> ledger_ok E (run E evs w)"
  by (induction evs arbitrary: w) (simp_all add: ledger_ok_step)

lemma ledger_ok_initial: "ledger_ok E initial_world"
  by (simp add: ledger_ok_def initial_world_def)

lemma fresh_jobs_extends: "extends E w w' n \<Longrightarrow> fresh_jobs E w w'"
  unfolding extends_def fresh_jobs_def by blast

lemma fresh_jobs_frame:
  "job_queue w' = job_queue w \<Longrightarrow> SCHEDULED_KEYS w' = SCHEDULED_KEYS w \<Longrightarrow> fresh_jobs E w w'"
  by (simp add: fresh_jobs_def)

lemma fresh_jobs_frame2:
  "fresh_jobs E w w1 \<Longrightarrow> job_queue w' = job_queue w1 \<Longrightarrow> SCHEDULED_KEYS w' = SCHEDULED_KEYS w1 \<Longrightarrow>
   fresh_jobs E w w'"
  by (simp add: fresh_jobs_def)

lemma fresh_jobs_step: "fresh_jobs E w (step E ev w)"
proof (cases ev)
  case Pull
  show ?thesis
  proof (cases "pull_fixtures E w")
    case (Raise e w')
    with grows_pull_fixtures [of E w] obtain n where "extends E w w' n"
      by (auto simp: grows2_def)
    then have "fresh_jobs E w w'" by (rule fresh_jobs_extends)
    with Raise Pull show ?thesis by (simp add: pull_and_schedule_def)
  next
    case (Return r w')
    with grows_pull_fixtures [of E w] have "extends E w w' (snd r)"
      by (simp add: grows2_def)
    then have ok: "fresh_jobs E w w'" by (rule fresh_jobs_extends)
    obtain c n where r: "r = (c, n)" by (cases r)
    have "fresh_jobs E w (send_all E DigestSendFailed (Digest c n) (SUBSCRIBERS w') w')"
      using ok by (rule fresh_jobs_frame2) (simp_all add: send_all_frame)
    with ok Return r Pull show ?thesis by (simp add: pull_and_schedule_def)
  qed
next
  case (LiveOn c)
  show ?thesis unfolding LiveOn by (rule fresh_jobs_frame) simp_all
next
  case (LiveOff c)
  show ?thesis unfolding LiveOff by (rule fresh_jobs_frame) simp_all
next
  case (Fire d)
  show ?thesis unfolding Fire
    by (rule fresh_jobs_frame) (simp_all add: send_reminder_job_def send_all_frame)
qed

lemma reserved_key_stays_single:
  "job_key E fid m \<in> SCHEDULED_KEYS w \<Longrightarrow>
   filter (job_for fid m) (job_queue (run E evs w)) = filter (job_for fid m) (job_queue w)"
proof (induction evs arbitrary: w)
  case Nil
  show ?case by simp
next
  case (Cons ev evs)
  from fresh_jobs_step [of E w ev] obtain js where
    js: "job_queue (step E ev w) = job_queue w @ js" "\<forall>j \<in> set js. keyed E j \<notin> SCHEDULED_KEYS w"
    and sub: "SCHEDULED_KEYS w \<subseteq> SCHEDULED_KEYS (step E ev w)"
    unfolding fresh_jobs_def by blast
  from Cons.prems js(2) have "\<forall>j \<in> set js. \<not> job_for fid m j"
    by (auto simp: job_for_def keyed_def)
  then have "filter (job_for fid m) js = []" by (simp add: filter_empty_conv)
  with js(1) have same: "filter (job_for fid m) (job_queue (step E ev w)) =
      filter (job_for fid m) (job_queue w)" by simp
  from Cons.prems sub have "job_key E fid m \<in> SCHEDULED_KEYS (step E ev w)" by blast
  from Cons.IH [OF this] same show ?case by simp
qed

lemma distinct_filter_le1:
  "distinct (map f xs) \<Longrightarrow> length (filter (\<lambda>x. f x = a) xs) \<le> 1"
proof (induction xs)
  case Nil
  show ?case by simp
next
  case (Cons x xs)
  show ?case
  proof (cases "f x = a")
    case True
    with Cons.prems have "\<forall>y \<in> set xs. f y \<noteq> a" by (auto simp: image_iff)
    then have "filter (\<lambda>x. f x = a) xs = []" by (simp add: filter_empty_conv)
    with True show ?thesis by simp
  next
    case False
    with Cons show ?thesis by simp
  qed
qed

lemma filter_length_mono:
  "(\<And>x. x \<in> set xs \<Longrightarrow> P x \<Longrightarrow> Q x) \<Longrightarrow> length (filter P xs) \<le> length (filter Q xs)"
proof (induction xs)
  case Nil
  show ?case by simp
next
  case (Cons x xs)
  then have "length (filter P xs) \<le> length (filter Q xs)" by simp
  with Cons.prems [of x] show ?case by auto
qed

text \<open>
  C1. From the start of the process, after any sequence of pulls, subscriptions and fired
  reminders, the queue has registered at most one job under the name of a key, hence at
  most one job for a fixture id and an offset; and once the key of a pair is in the
  ledger, no later event registers a job for the pair.
\<close>

theorem no_duplicate_jobs:
  "length (filter (\<lambda>j. job_name j = ''fx:'' @ job_key E fid m)
             (job_queue (run E evs initial_world))) \<le> 1 \<and>
   length (filter (job_for fid m) (job_queue (run E evs initial_world))) \<le> 1 \<and>
   (job_key E fid m \<in> SCHEDULED_KEYS w \<longrightarrow>
      filter (job_for fid m) (job_queue (run E evs w)) = filter (job_for fid m) (job_queue w))"
proof -
  let ?W = "run E evs initial_world"
  have ok: "ledger_ok E ?W" by (rule ledger_ok_run [OF ledger_ok_initial])
  then have d: "distinct (map job_name (job_queue ?W))" by (simp add: ledger_ok_def)
  then have one: "length (filter (\<lambda>j. job_name j = ''fx:'' @ job_key E fid m) (job_queue ?W)) \<le> 1"
    by (rule distinct_filter_le1)
  have "length (filter (job_for fid m) (job_queue ?W)) \<le>
        length (filter (\<lambda>j. job_name j = ''fx:'' @ job_key E fid m) (job_queue ?W))"
  proof (rule filter_length_mono)
    fix j assume "j \<in> set (job_queue ?W)" and "job_for fid m j"
    with ok show "job_name j = ''fx:'' @ job_key E fid m"
      by (auto simp: ledger_ok_def job_for_def keyed_def)
  qed
  with one have two: "length (filter (job_for fid m) (job_queue ?W)) \<le> 1" by simp
  from one two reserved_key_stays_single [of E fid m w evs] show ?thesis by blast
qed

theorem digest_iff_jobs_and_subscribers_witness:
  "(case pull_fixtures (demo_env 1761472200000000) (initial_world\<lparr>SUBSCRIBERS := [1, 2, 3]\<rparr>) of
      Return r w1 \<Rightarrow> r = (1, 1) | Raise e w1 \<Rightarrow> False) \<and>
   sends (world_of (pull_and_schedule (demo_env 1761472200000000)
            (initial_world\<lparr>SUBSCRIBERS := [1, 2, 3]\<rparr>))) =
     [(1, Digest 1 1, True), (2, Digest 1 1, False), (3, Digest 1 1, True)] \<and>
   (case pull_fixtures (demo_env 1761473100000000) (initial_world\<lparr>SUBSCRIBERS := [1, 2, 3]\<rparr>) of
      Return r w1 \<Rightarrow> r = (1, 0) | Raise e w1 \<Rightarrow> False) \<and>
   sends (world_of (pull_and_schedule (demo_env 1761473100000000)
            (initial_world\<lparr>SUBSCRIBERS := [1, 2, 3]\<rparr>))) = [] \<and>
   (case pull_fixtures (demo_env 1761472200000000) initial_world of
      Return r w1 \<Rightarrow> r = (1, 1) | Raise e w1 \<Rightarrow> False) \<and>
   sends (world_of (pull_and_schedule (demo_env 1761472200000000) initial_world)) = []"
proof -
  let ?E = "demo_env 1761472200000000"
  let ?L = "demo_env 1761473100000000"
  let ?w = "initial_world\<lparr>SUBSCRIBERS := [1, 2, 3]\<rparr>"
  have sm: "\<And>t0 t c m. send_message (demo_env t0) t c m = (c \<noteq> 2)"
    by (simp add: demo_env_def)
  have a: "(case pull_fixtures ?E ?w of Return r w1 \<Rightarrow> r = (1, 1) | Raise e w1 \<Rightarrow> False)"
    by code_simp
  then obtain w1 where p1: "pull_fixtures ?E ?w = Return (1, 1) w1"
    by (auto split: outcome.splits)
  have s1: "sends (world_of (pull_and_schedule ?E ?w)) =
     [(1, Digest 1 1, True), (2, Digest 1 1, False), (3, Digest 1 1, True)]"
    using conjunct1 [OF conjunct2 [OF digest_iff_jobs_and_subscribers [OF p1]]]
    by (simp add: initial_world_sel sm)
  have b: "(case pull_fixtures ?L ?w of Return r w1 \<Rightarrow> r = (1, 0) | Raise e w1 \<Rightarrow> False)"
    by code_simp
  then obtain w2 where p2: "pull_fixtures ?L ?w = Return (1, 0) w2"
    by (auto split: outcome.splits)
  have s2: "sends (world_of (pull_and_schedule ?L ?w)) = []"
    using conjunct1 [OF conjunct2 [OF digest_iff_jobs_and_subscribers [OF p2]]]
    by (simp add: initial_world_sel)
  have c: "(case pull_fixtures ?E initial_world of Return r w1 \<Rightarrow> r = (1, 1) | Raise e w1 \<Rightarrow> False)"
    by code_simp
  then obtain w3 where p3: "pull_fixtures ?E initial_world = Return (1, 1) w3"
    by (auto split: outcome.splits)
  have s3: "sends (world_of (pull_and_schedule ?E initial_world)) = []"
    using conjunct1 [OF conjunct2 [OF digest_iff_jobs_and_subscribers [OF p3]]]
    by (simp add: initial_world_sel)
  from a s1 b s2 c s3 show ?thesis by (intro conjI)
qed

theorem no_duplicate_jobs_witness:
  "job_key (demo_env 1761472200000000) (JInt 7) 0
     \<in> SCHEDULED_KEYS (run (demo_env 1761472200000000) [Pull] initial_world) \<and>
   length (filter (job_for (JInt 7) 0)
     (job_queue (run (demo_env 1761472200000000) [Pull, LiveOn 1, Pull] initial_world))) = 1"
proof -
  let ?E = "demo_env 1761472200000000"
  let ?w = "run ?E [Pull] initial_world"
  have k: "job_key ?E (JInt 7) 0 \<in> SCHEDULED_KEYS ?w"
    by code_simp
  have n: "length (filter (job_for (JInt 7) 0) (job_queue ?w)) = 1"
    by code_simp
  have r: "run ?E [Pull, LiveOn 1, Pull] initial_world = run ?E [LiveOn 1, Pull] ?w"
    by simp
  from no_duplicate_jobs [of ?E "JInt 7" 0 "[LiveOn 1, Pull]" ?w] k
  have "filter (job_for (JInt 7) 0) (job_queue (run ?E [LiveOn 1, Pull] ?w)) =
        filter (job_for (JInt 7) 0) (job_queue ?w)" by blast
  with k n r show ?thesis by simp
qed

section \<open>A fetch that fails\<close>






section \<open>Pulling again\<close>

lemma offsets_loop_all_skip:
  "\<forall>m \<in> set ms. ko - minutes m \<le> now \<or> job_key E fid m \<in> SCHEDULED_KEYS w \<Longrightarrow>
   offsets_loop E ko h a l fid now ms n w = (n, w)"
  by (induction ms) (simp_all add: offsets_loop_skip del: offsets_loop.simps(2))

lemma offsets_loop_covers:
  "offsets_loop E ko h a l fid now ms n w = (n', w') \<Longrightarrow>
   \<forall>m \<in> set ms. ko - minutes m \<le> now \<or> job_key E fid m \<in> SCHEDULED_KEYS w'"
proof (induction ms arbitrary: n w)
  case Nil
  show ?case by simp
next
  case (Cons m ms)
  show ?case
  proof (cases "ko - minutes m \<le> now \<or> job_key E fid m \<in> SCHEDULED_KEYS w")
    case True
    with Cons.prems have r: "offsets_loop E ko h a l fid now ms n w = (n', w')"
      by (simp only: offsets_loop_skip)
    from offsets_loop_count [OF r] have "SCHEDULED_KEYS w \<subseteq> SCHEDULED_KEYS w'" by simp
    with True Cons.IH [OF r] show ?thesis by auto
  next
    case False
    let ?w1 = "w\<lparr>SCHEDULED_KEYS := insert (job_key E fid m) (SCHEDULED_KEYS w),
                  job_queue := job_queue w @ [reminder_job E ko h a l fid m]\<rparr>"
    from Cons.prems have r: "offsets_loop E ko h a l fid now ms (n + 1) ?w1 = (n', w')"
      by (simp only: offsets_loop_take [OF False])
    from offsets_loop_count [OF r] have "job_key E fid m \<in> SCHEDULED_KEYS w'" by simp
    with Cons.IH [OF r] show ?thesis by simp
  qed
qed

lemma quiet_after_schedule:
  assumes mono: "\<forall>i j. i \<le> j \<longrightarrow> clock E i \<le> clock E j"
    and run: "schedule_reminders_for_fixture E fx w = (n, w')"
  shows "quiet E fx w'"
proof (cases rule: schedule_cases [where E = E and fx = fx and w = w])
  case malformed
  then show ?thesis by (simp add: quiet_def idle_def)
next
  case (wellformed ko home away league fixture_id)
  note wf = wellformed(1-5)
  let ?now = "clock E (tick w)"
  have later: "\<And>v' :: world. tick w' \<le> tick v' \<Longrightarrow> ?now \<le> clock E (tick v')"
  proof -
    fix v' :: world assume a: "tick w' \<le> tick v'"
    have "tick w \<le> tick w'" using extends_schedule [OF run] by (simp add: extends_def)
    with a have "tick w \<le> tick v'" by simp
    with mono show "?now \<le> clock E (tick v')" by blast
  qed
  show ?thesis
  proof (cases "ko \<le> ?now")
    case True
    show ?thesis unfolding quiet_def idle_def
    proof (intro allI impI)
      fix v' :: world assume "SCHEDULED_KEYS w' \<subseteq> SCHEDULED_KEYS v'" and t: "tick w' \<le> tick v'"
      from True later [OF t] have "ko \<le> clock E (tick v')" by simp
      then show "schedule_reminders_for_fixture E fx v' = (0, v') \<or>
            schedule_reminders_for_fixture E fx v' = (0, v'\<lparr>tick := Suc (tick v')\<rparr>)"
        by (simp add: schedule_wellformed [OF wf])
    qed
  next
    case False
    with wellformed(6) run
    have loop: "offsets_loop E ko home away league fixture_id ?now REMINDER_OFFSETS 0
             (w\<lparr>tick := Suc (tick w)\<rparr>) = (n, w')" by simp
    note cov = offsets_loop_covers [OF loop]
    show ?thesis unfolding quiet_def idle_def
    proof (intro allI impI)
      fix v' :: world assume k: "SCHEDULED_KEYS w' \<subseteq> SCHEDULED_KEYS v'" and t: "tick w' \<le> tick v'"
      let ?now' = "clock E (tick v')"
      let ?v1 = "v'\<lparr>tick := Suc (tick v')\<rparr>"
      from later [OF t] have le: "?now \<le> ?now'" .
      have "\<forall>m \<in> set REMINDER_OFFSETS. ko - minutes m \<le> ?now' \<or>
              job_key E fixture_id m \<in> SCHEDULED_KEYS ?v1"
        using cov k le by fastforce
      then have "offsets_loop E ko home away league fixture_id ?now' REMINDER_OFFSETS 0 ?v1
          = (0, ?v1)" by (rule offsets_loop_all_skip)
      then show "schedule_reminders_for_fixture E fx v' = (0, v') \<or>
            schedule_reminders_for_fixture E fx v' = (0, v'\<lparr>tick := Suc (tick v')\<rparr>)"
        by (simp add: schedule_wellformed [OF wf])
    qed
  qed
qed

lemma quiet_later:
  "quiet E fx v \<Longrightarrow> SCHEDULED_KEYS v \<subseteq> SCHEDULED_KEYS v2 \<Longrightarrow> tick v \<le> tick v2 \<Longrightarrow> quiet E fx v2"
  unfolding quiet_def by (meson order_trans)

lemma inert_refl: "inert v v"
  by (simp add: inert_def)

lemma inert_trans: "inert v v1 \<Longrightarrow> inert v1 v2 \<Longrightarrow> inert v v2"
  by (simp add: inert_def)

lemma quiet_fixtures_after:
  assumes mono: "\<forall>i j. i \<le> j \<longrightarrow> clock E i \<le> clock E j"
  shows "fixtures_loop E today fxs tot w = (tot', w') \<Longrightarrow>
         \<forall>fx \<in> set fxs. kicks_off_on E today fx \<longrightarrow> quiet E fx w'"
proof (induction fxs arbitrary: tot w)
  case Nil
  show ?case by simp
next
  case (Cons fx fxs)
  show ?case
  proof (cases "kicks_off_on E today fx")
    case False
    then have "fixtures_loop E today (fx # fxs) tot w = fixtures_loop E today fxs tot w"
      by (auto simp: kicks_off_on_def split: sum.splits)
    with Cons.prems have "fixtures_loop E today fxs tot w = (tot', w')" by simp
    from Cons.IH [OF this] False show ?thesis by simp
  next
    case True
    obtain n w1 where s: "schedule_reminders_for_fixture E fx w = (n, w1)"
      by (cases "schedule_reminders_for_fixture E fx w")
    from True s have "fixtures_loop E today (fx # fxs) tot w = fixtures_loop E today fxs (tot + n) w1"
      by (auto simp: kicks_off_on_def split: sum.splits)
    with Cons.prems have r: "fixtures_loop E today fxs (tot + n) w1 = (tot', w')" by simp
    from extends_fixtures_loop [OF r] have "SCHEDULED_KEYS w1 \<subseteq> SCHEDULED_KEYS w'" "tick w1 \<le> tick w'"
      by (simp_all add: extends_def)
    with quiet_after_schedule [OF mono s] have "quiet E fx w'" by (rule quiet_later)
    with Cons.IH [OF r] show ?thesis by simp
  qed
qed

lemma quiet_fixtures_idle:
  "\<forall>fx \<in> set fxs. kicks_off_on E today fx \<longrightarrow> quiet E fx v0 \<Longrightarrow>
   SCHEDULED_KEYS v0 \<subseteq> SCHEDULED_KEYS v \<Longrightarrow> tick v0 \<le> tick v \<Longrightarrow>
   \<exists>v'. fixtures_loop E today fxs tot v = (tot, v') \<and> inert v v'"
proof (induction fxs arbitrary: v)
  case Nil
  show ?case by (simp add: inert_refl)
next
  case (Cons fx fxs)
  show ?case
  proof (cases "kicks_off_on E today fx")
    case False
    then have "fixtures_loop E today (fx # fxs) tot v = fixtures_loop E today fxs tot v"
      by (auto simp: kicks_off_on_def split: sum.splits)
    with Cons.IH [of v] Cons.prems show ?thesis by simp
  next
    case True
    with Cons.prems have "idle E fx v" by (simp add: quiet_def)
    then obtain v1 where s: "schedule_reminders_for_fixture E fx v = (0, v1)" and i: "inert v v1"
      unfolding idle_def by (auto simp: inert_def)
    from True s have st: "fixtures_loop E today (fx # fxs) tot v = fixtures_loop E today fxs tot v1"
      by (auto simp: kicks_off_on_def split: sum.splits)
    from i Cons.prems have "SCHEDULED_KEYS v0 \<subseteq> SCHEDULED_KEYS v1" "tick v0 \<le> tick v1"
      by (simp_all add: inert_def)
    with Cons.IH [of v1] Cons.prems obtain v' where
      "fixtures_loop E today fxs tot v1 = (tot, v')" "inert v1 v'" by auto
    with st i show ?thesis by (auto intro: inert_trans)
  qed
qed

lemma inert_tick: "inert w (w\<lparr>tick := Suc (tick w)\<rparr>)"
  by (simp add: inert_def)

lemma inert_tick2: "inert w w1 \<Longrightarrow> inert w (w1\<lparr>tick := Suc (tick w1)\<rparr>)"
  by (simp add: inert_def)

lemma inert_log_tick: "inert w w1 \<Longrightarrow> inert w (w1\<lparr>log := x, tick := Suc (tick w1)\<rparr>)"
  by (simp add: inert_def)

lemma pick_season_steady:
  assumes "steady E"
  shows "\<exists>w1. inert w w1 \<and>
     pick_season E seasons w =
       (case season_of E seasons of Inl e \<Rightarrow> Raise e w1 | Inr y \<Rightarrow> Return y w1)"
proof -
  from assms have d: "local_date (clock E (tick w)) = local_date (clock E 0)"
    unfolding steady_def by blast
  show ?thesis
  proof (cases "season_of E seasons")
    case (Inl e)
    then have "pick_season E seasons w = Raise e w"
      by (auto simp: season_of_def pick_season_def split: sum.splits)
    with Inl show ?thesis by (auto intro: inert_refl)
  next
    case (Inr y)
    then have "pick_season E seasons w = Return y w \<or>
               pick_season E seasons w = Return y (w\<lparr>tick := Suc (tick w)\<rparr>)"
      by (auto simp: season_of_def pick_season_def d split: sum.splits if_splits)
    with Inr show ?thesis by (auto intro: inert_refl inert_tick)
  qed
qed

lemma fetch_steady:
  "steady E \<Longrightarrow> get_today_fixtures_for_league E t league_id season today =
                get_today_fixtures_for_league E 0 league_id season today"
  unfolding steady_def get_today_fixtures_for_league_def by metis

lemma league_step_steady:
  assumes "steady E"
  shows "\<exists>w1. inert w w1 \<and>
     league_step E today country item tot w =
       (case league_plan_of E today item of
          Crash e \<Rightarrow> Raise e w1
        | NoFixtures \<Rightarrow> Return tot w1
        | Fixtures fxs \<Rightarrow> (case fixtures_loop E today fxs tot w1 of (t, w') \<Rightarrow> Return t w'))"
proof (cases "dict_get item ''league'' (JDict [])")
  case (Inl e)
  then show ?thesis
    by (intro exI [of _ w]) (simp add: inert_refl league_step_def league_plan_of_def)
next
  case league: (Inr league)
  show ?thesis
  proof (cases "dict_get item ''seasons'' JNull")
    case (Inl e)
    with league show ?thesis
      by (intro exI [of _ w]) (simp add: inert_refl league_step_def league_plan_of_def)
  next
    case s0: (Inr s0)
    let ?seasons = "if truthy s0 then s0 else JList []"
    show ?thesis
    proof (cases "\<not> truthy league \<or> \<not> truthy ?seasons")
      case True
      with league s0 show ?thesis
        by (intro exI [of _ w]) (auto simp: inert_refl league_step_def league_plan_of_def Let_def)
    next
      case go: False
      from pick_season_steady [OF assms, of w ?seasons] obtain w1 where
        i1: "inert w w1" and
        ps: "pick_season E ?seasons w =
          (case season_of E ?seasons of Inl e \<Rightarrow> Raise e w1 | Inr y \<Rightarrow> Return y w1)" by blast
      show ?thesis
      proof (cases "season_of E ?seasons")
        case (Inl e)
        with league s0 go ps i1 show ?thesis
          by (intro exI [of _ w1]) (auto simp: league_step_def league_plan_of_def Let_def)
      next
        case season: (Inr season)
        show ?thesis
        proof (cases "dict_get league ''id'' JNull")
          case (Inl e)
          with league s0 go ps i1 season show ?thesis
            by (intro exI [of _ w1]) (auto simp: league_step_def league_plan_of_def Let_def)
        next
          case lid: (Inr league_id)
          show ?thesis
          proof (cases "truthy league_id")
            case False
            with league s0 go ps i1 season lid show ?thesis
              by (intro exI [of _ w1]) (auto simp: league_step_def league_plan_of_def Let_def)
          next
            case True
            note f = fetch_steady [OF assms, of "tick w1" league_id season today]
            show ?thesis
            proof (cases "get_today_fixtures_for_league E 0 league_id season today")
              case fail: (Inl e)
              show ?thesis
              proof (cases "dict_get league ''name'' JNull")
                case (Inl e')
                with league s0 go ps i1 season lid True f fail show ?thesis
                  by (intro exI [of _ "w1\<lparr>tick := Suc (tick w1)\<rparr>"])
                     (auto simp: league_step_def league_plan_of_def Let_def inert_tick2)
              next
                case (Inr name)
                with league s0 go ps i1 season lid True f fail show ?thesis
                  by (intro exI [of _ "w1\<lparr>log := log w1 @ [FixturesFetchFailed country name e],
                       tick := Suc (tick w1)\<rparr>"])
                     (auto simp: league_step_def league_plan_of_def Let_def inert_log_tick)
              qed
            next
              case ok: (Inr fixtures)
              with league s0 go ps i1 season lid True f show ?thesis
                by (intro exI [of _ "w1\<lparr>tick := Suc (tick w1)\<rparr>"])
                   (auto simp: league_step_def league_plan_of_def Let_def inert_tick2
                         split: sum.splits prod.splits)
            qed
          qed
        qed
      qed
    qed
  qed
qed

lemma settled_items_later:
  "settled_items E today items v \<Longrightarrow> SCHEDULED_KEYS v \<subseteq> SCHEDULED_KEYS v2 \<Longrightarrow>
   tick v \<le> tick v2 \<Longrightarrow> settled_items E today items v2"
  by (induction items) (auto split: league_plan.splits intro: quiet_later)

lemma settled_cache_later:
  "settled_cache E today cache v \<Longrightarrow> SCHEDULED_KEYS v \<subseteq> SCHEDULED_KEYS v2 \<Longrightarrow>
   tick v \<le> tick v2 \<Longrightarrow> settled_cache E today cache v2"
  by (induction cache) (auto intro: settled_items_later)

lemma leagues_loop_later:
  "SCHEDULED_KEYS w \<subseteq> SCHEDULED_KEYS (world_of (leagues_loop E today country items tot w)) \<and>
   tick w \<le> tick (world_of (leagues_loop E today country items tot w))"
  using grows_leagues_loop [of E w tot today country items]
  by (cases "leagues_loop E today country items tot w") (auto simp: grows_def extends_def)

lemma countries_loop_later:
  "SCHEDULED_KEYS w \<subseteq> SCHEDULED_KEYS (world_of (countries_loop E today cache ct tot w)) \<and>
   tick w \<le> tick (world_of (countries_loop E today cache ct tot w))"
  using grows_countries_loop [of E w ct cache tot today]
  by (cases "countries_loop E today cache ct tot w") (auto simp: grows2_def extends_def)

lemma fixtures_loop_later:
  "fixtures_loop E today fxs tot w = (t, w') \<Longrightarrow>
   SCHEDULED_KEYS w \<subseteq> SCHEDULED_KEYS w' \<and> tick w \<le> tick w'"
  using extends_fixtures_loop [of E today fxs tot w t w'] by (simp add: extends_def)

lemma leagues_loop_settles:
  assumes st: "steady E"
  shows "settled_items E today items (world_of (leagues_loop E today country items tot w)) \<and>
         ((\<exists>e w'. leagues_loop E today country items tot w = Raise e w') \<longleftrightarrow>
            crashes E today items)"
proof (induction items arbitrary: tot w)
  case Nil
  show ?case by simp
next
  case (Cons item items)
  from st have mono: "\<forall>i j. i \<le> j \<longrightarrow> clock E i \<le> clock E j" by (simp add: steady_def)
  from league_step_steady [OF st, of w today country item tot] obtain w1 where
    i1: "inert w w1" and
    step: "league_step E today country item tot w =
       (case league_plan_of E today item of
          Crash e \<Rightarrow> Raise e w1
        | NoFixtures \<Rightarrow> Return tot w1
        | Fixtures fxs \<Rightarrow> (case fixtures_loop E today fxs tot w1 of (t, w') \<Rightarrow> Return t w'))"
    by blast
  show ?case
  proof (cases "league_plan_of E today item")
    case (Crash e)
    with step show ?thesis by simp
  next
    case NoFixtures
    with step have "leagues_loop E today country (item # items) tot w =
                    leagues_loop E today country items tot w1" by simp
    with Cons.IH [of tot w1] NoFixtures show ?thesis by simp
  next
    case (Fixtures fxs)
    obtain t w2 where fl: "fixtures_loop E today fxs tot w1 = (t, w2)"
      by (cases "fixtures_loop E today fxs tot w1")
    with step Fixtures have eq: "leagues_loop E today country (item # items) tot w =
                    leagues_loop E today country items t w2" by simp
    let ?W = "world_of (leagues_loop E today country items t w2)"
    from quiet_fixtures_after [OF mono fl]
    have q: "\<forall>fx \<in> set fxs. kicks_off_on E today fx \<longrightarrow> quiet E fx w2" .
    from leagues_loop_later [of w2 E today country items t]
    have "\<forall>fx \<in> set fxs. kicks_off_on E today fx \<longrightarrow> quiet E fx ?W"
      using q quiet_later by blast
    with Cons.IH [of t w2] Fixtures eq show ?thesis by simp
  qed
qed

lemma leagues_loop_idle:
  assumes st: "steady E"
  shows "settled_items E today items v0 \<Longrightarrow> SCHEDULED_KEYS v0 \<subseteq> SCHEDULED_KEYS v \<Longrightarrow>
         tick v0 \<le> tick v \<Longrightarrow>
         \<exists>v'. inert v v' \<and>
           (if crashes E today items then \<exists>e. leagues_loop E today country items tot v = Raise e v'
            else leagues_loop E today country items tot v = Return tot v')"
proof (induction items arbitrary: v)
  case Nil
  show ?case by (simp add: inert_refl)
next
  case (Cons item items)
  from league_step_steady [OF st, of v today country item tot] obtain v1 where
    i1: "inert v v1" and
    step: "league_step E today country item tot v =
       (case league_plan_of E today item of
          Crash e \<Rightarrow> Raise e v1
        | NoFixtures \<Rightarrow> Return tot v1
        | Fixtures fxs \<Rightarrow> (case fixtures_loop E today fxs tot v1 of (t, w') \<Rightarrow> Return t w'))"
    by blast
  from i1 Cons.prems have b1: "SCHEDULED_KEYS v0 \<subseteq> SCHEDULED_KEYS v1" "tick v0 \<le> tick v1"
    by (simp_all add: inert_def)
  show ?case
  proof (cases "league_plan_of E today item")
    case (Crash e)
    with step i1 show ?thesis by auto
  next
    case NoFixtures
    with step have eq: "leagues_loop E today country (item # items) tot v =
                    leagues_loop E today country items tot v1" by simp
    from Cons.prems NoFixtures have "settled_items E today items v0" by simp
    from Cons.IH [OF this b1] obtain v' where
      "inert v1 v'" "if crashes E today items
         then \<exists>e. leagues_loop E today country items tot v1 = Raise e v'
         else leagues_loop E today country items tot v1 = Return tot v'" by blast
    with i1 eq NoFixtures show ?thesis
      by (intro exI [of _ v']) (auto intro: inert_trans simp del: leagues_loop.simps)
  next
    case (Fixtures fxs)
    from Cons.prems Fixtures have q: "\<forall>fx \<in> set fxs. kicks_off_on E today fx \<longrightarrow> quiet E fx v0"
      and rest: "settled_items E today items v0" by simp_all
    from quiet_fixtures_idle [OF q b1, of tot] obtain v2 where
      fl: "fixtures_loop E today fxs tot v1 = (tot, v2)" and i2: "inert v1 v2" by blast
    with step Fixtures have eq: "leagues_loop E today country (item # items) tot v =
                    leagues_loop E today country items tot v2" by simp
    from i2 b1 have b2: "SCHEDULED_KEYS v0 \<subseteq> SCHEDULED_KEYS v2" "tick v0 \<le> tick v2"
      by (simp_all add: inert_def)
    from Cons.IH [OF rest b2] obtain v' where
      "inert v2 v'" "if crashes E today items
         then \<exists>e. leagues_loop E today country items tot v2 = Raise e v'
         else leagues_loop E today country items tot v2 = Return tot v'" by blast
    with i1 i2 eq Fixtures show ?thesis
      by (intro exI [of _ v']) (auto intro: inert_trans simp del: leagues_loop.simps)
  qed
qed

lemma countries_loop_settles:
  assumes st: "steady E"
  shows "settled_cache E today cache (world_of (countries_loop E today cache ct tot w))"
proof (induction cache arbitrary: ct tot w)
  case Nil
  show ?case by simp
next
  case (Cons entry cache)
  obtain country leagues where entry: "entry = (country, leagues)" by (cases entry)
  note ll = leagues_loop_settles [OF st, of today leagues country tot w]
  show ?case
  proof (cases "leagues_loop E today country leagues tot w")
    case (Raise e w')
    with ll entry show ?thesis by auto
  next
    case (Return t w1)
    with ll have s1: "settled_items E today leagues w1" and nc: "\<not> crashes E today leagues"
      by auto
    let ?W = "world_of (countries_loop E today cache (ct + 1) t w1)"
    from countries_loop_later [of w1 E today cache "ct + 1" t] s1
    have "settled_items E today leagues ?W" by (auto intro: settled_items_later)
    with Cons.IH [of "ct + 1" t w1] Return entry show ?thesis by simp
  qed
qed

lemma countries_loop_idle:
  assumes st: "steady E"
  shows "settled_cache E today cache v0 \<Longrightarrow> SCHEDULED_KEYS v0 \<subseteq> SCHEDULED_KEYS v \<Longrightarrow>
         tick v0 \<le> tick v \<Longrightarrow>
         \<exists>v'. inert v v' \<and>
           ((\<exists>e. countries_loop E today cache ct tot v = Raise e v') \<or>
            countries_loop E today cache ct tot v = Return (ct + length cache, tot) v')"
proof (induction cache arbitrary: ct v)
  case Nil
  show ?case by (simp add: inert_refl)
next
  case (Cons entry cache)
  obtain country leagues where entry: "entry = (country, leagues)" by (cases entry)
  from Cons.prems entry have s1: "settled_items E today leagues v0"
    and s2: "crashes E today leagues \<or> settled_cache E today cache v0" by simp_all
  from leagues_loop_idle [OF st s1 Cons.prems(2,3), of country tot] obtain v1 where
    i1: "inert v v1" and
    ll: "if crashes E today leagues then \<exists>e. leagues_loop E today country leagues tot v = Raise e v1
         else leagues_loop E today country leagues tot v = Return tot v1" by blast
  show ?case
  proof (cases "crashes E today leagues")
    case True
    with ll i1 entry show ?thesis by auto
  next
    case False
    with ll have r: "leagues_loop E today country leagues tot v = Return tot v1" by simp
    from False s2 have sc: "settled_cache E today cache v0" by simp
    from i1 Cons.prems have b1: "SCHEDULED_KEYS v0 \<subseteq> SCHEDULED_KEYS v1" "tick v0 \<le> tick v1"
      by (simp_all add: inert_def)
    from Cons.IH [OF sc b1, of "ct + 1"] obtain v' where
      i2: "inert v1 v'" and
      cl: "(\<exists>e. countries_loop E today cache (ct + 1) tot v1 = Raise e v') \<or>
            countries_loop E today cache (ct + 1) tot v1 = Return (ct + 1 + length cache, tot) v'"
      by blast
    from i1 i2 have "inert v v'" by (rule inert_trans)
    with cl r entry show ?thesis by (intro exI [of _ v']) auto
  qed
qed

lemma schedule_cache:
  "LEAGUES_CACHE (snd (schedule_reminders_for_fixture E fx w)) = LEAGUES_CACHE w"
proof (cases rule: schedule_cases [where E = E and fx = fx and w = w])
  case malformed
  from malformed [of w] show ?thesis by simp
next
  case (wellformed ko home away league fixture_id)
  show ?thesis
  proof (cases "ko \<le> clock E (tick w)")
    case True
    with wellformed(6) show ?thesis by simp
  next
    case False
    obtain n w' where r: "offsets_loop E ko home away league fixture_id (clock E (tick w))
        REMINDER_OFFSETS 0 (w\<lparr>tick := Suc (tick w)\<rparr>) = (n, w')"
      by (cases "offsets_loop E ko home away league fixture_id (clock E (tick w))
        REMINDER_OFFSETS 0 (w\<lparr>tick := Suc (tick w)\<rparr>)")
    from offsets_loop_frame [OF r]
    have "LEAGUES_CACHE w' = LEAGUES_CACHE ((w\<lparr>tick := Suc (tick w)\<rparr>)
            \<lparr>SCHEDULED_KEYS := SCHEDULED_KEYS w', job_queue := job_queue w'\<rparr>)"
      by simp
    then have "LEAGUES_CACHE w' = LEAGUES_CACHE w" by simp
    with False wellformed(6) r show ?thesis by simp
  qed
qed

lemma fixtures_loop_cache:
  "LEAGUES_CACHE (snd (fixtures_loop E today fxs tot w)) = LEAGUES_CACHE w"
proof (induction fxs arbitrary: tot w)
  case Nil
  show ?case by simp
next
  case (Cons fx fxs)
  show ?case
  proof (cases "kicks_off_on E today fx")
    case False
    then have "fixtures_loop E today (fx # fxs) tot w = fixtures_loop E today fxs tot w"
      by (auto simp: kicks_off_on_def split: sum.splits)
    with Cons.IH [of tot w] show ?thesis by simp
  next
    case True
    obtain n w1 where s: "schedule_reminders_for_fixture E fx w = (n, w1)"
      by (cases "schedule_reminders_for_fixture E fx w")
    from True s have "fixtures_loop E today (fx # fxs) tot w = fixtures_loop E today fxs (tot + n) w1"
      by (auto simp: kicks_off_on_def split: sum.splits)
    moreover from schedule_cache [of E fx w] s have "LEAGUES_CACHE w1 = LEAGUES_CACHE w" by simp
    ultimately show ?thesis using Cons.IH [of "tot + n" w1] by simp
  qed
qed

lemma pick_season_cache: "LEAGUES_CACHE (world_of (pick_season E seasons w)) = LEAGUES_CACHE w"
  by (auto simp: pick_season_def split: sum.splits)

lemma league_step_cache:
  "LEAGUES_CACHE (world_of (league_step E today country item tot w)) = LEAGUES_CACHE w"
proof -
  have ps: "\<And>s y w1. pick_season E s w = Return y w1 \<Longrightarrow> LEAGUES_CACHE w1 = LEAGUES_CACHE w"
           "\<And>s e w1. pick_season E s w = Raise e w1 \<Longrightarrow> LEAGUES_CACHE w1 = LEAGUES_CACHE w"
    using pick_season_cache [of E _ w] by (metis world_of.simps(1), metis world_of.simps(2))
  have fl: "\<And>s y fxs w1 t w2. pick_season E s w = Return y w1 \<Longrightarrow>
      fixtures_loop E today fxs tot (w1\<lparr>tick := Suc (tick w1)\<rparr>) = (t, w2) \<Longrightarrow>
      LEAGUES_CACHE w2 = LEAGUES_CACHE w"
  proof -
    fix s y fxs w1 t w2
    assume p: "pick_season E s w = Return y w1"
      and "fixtures_loop E today fxs tot (w1\<lparr>tick := Suc (tick w1)\<rparr>) = (t, w2)"
    with fixtures_loop_cache [of E today fxs tot "w1\<lparr>tick := Suc (tick w1)\<rparr>"]
    have "LEAGUES_CACHE w2 = LEAGUES_CACHE w1" by simp
    with ps(1) [OF p] show "LEAGUES_CACHE w2 = LEAGUES_CACHE w" by simp
  qed
  show ?thesis
    unfolding league_step_def
    by (auto simp: Let_def split: sum.splits outcome.splits prod.splits dest: ps fl)
qed

lemma leagues_loop_cache:
  "LEAGUES_CACHE (world_of (leagues_loop E today country items tot w)) = LEAGUES_CACHE w"
proof (induction items arbitrary: tot w)
  case Nil
  show ?case by simp
next
  case (Cons item items)
  show ?case
  proof (cases "league_step E today country item tot w")
    case (Raise e w')
    with league_step_cache [of E today country item tot w] show ?thesis by simp
  next
    case (Return t w1)
    with league_step_cache [of E today country item tot w] Cons.IH [of t w1]
    show ?thesis by simp
  qed
qed

lemma countries_loop_cache:
  "LEAGUES_CACHE (world_of (countries_loop E today cache ct tot w)) = LEAGUES_CACHE w"
proof (induction cache arbitrary: ct tot w)
  case Nil
  show ?case by simp
next
  case (Cons entry cache)
  obtain country leagues where entry: "entry = (country, leagues)" by (cases entry)
  show ?case
  proof (cases "leagues_loop E today country leagues tot w")
    case (Raise e w')
    with leagues_loop_cache [of E today country leagues tot w] entry show ?thesis by simp
  next
    case (Return t w1)
    with leagues_loop_cache [of E today country leagues tot w] Cons.IH [of "ct + 1" t w1] entry
    show ?thesis by simp
  qed
qed

lemma leagues_steady:
  "steady E \<Longrightarrow> get_current_leagues_for_country E t c = get_current_leagues_for_country E 0 c"
  unfolding steady_def get_current_leagues_for_country_def by metis

lemma ensure_keeps:
  "map_of (LEAGUES_CACHE w) c \<noteq> None \<Longrightarrow>
   map_of (LEAGUES_CACHE (ensure_leagues_cache E cs w)) c \<noteq> None"
proof (induction cs arbitrary: w)
  case Nil
  then show ?case by simp
next
  case (Cons x cs)
  show ?case
  proof (cases "map_of (LEAGUES_CACHE w) x \<noteq> None")
    case True
    with Cons show ?thesis by simp
  next
    case False
    show ?thesis
    proof (cases "get_current_leagues_for_country E (tick w) x")
      case (Inl e)
      with False Cons.IH [of "w\<lparr>log := log w @ [CacheFailed x e], tick := Suc (tick w)\<rparr>"]
        Cons.prems show ?thesis by simp
    next
      case (Inr leagues)
      let ?w1 = "w\<lparr>LEAGUES_CACHE := LEAGUES_CACHE w @ [(x, leagues)],
                  log := log w @ [CachedLeagues (length leagues) x], tick := Suc (tick w)\<rparr>"
      from Cons.prems have "map_of (LEAGUES_CACHE ?w1) c \<noteq> None"
        by (auto simp: map_add_def split: option.splits)
      from Cons.IH [OF this] False Inr show ?thesis by simp
    qed
  qed
qed

lemma ensure_done:
  assumes st: "steady E"
  shows "\<forall>c \<in> set cs. map_of (LEAGUES_CACHE (ensure_leagues_cache E cs w)) c \<noteq> None \<or>
           (\<exists>e. get_current_leagues_for_country E 0 c = Inl e)"
proof (induction cs arbitrary: w)
  case Nil
  show ?case by simp
next
  case (Cons x cs)
  show ?case
  proof (cases "map_of (LEAGUES_CACHE w) x \<noteq> None")
    case True
    then have "map_of (LEAGUES_CACHE (ensure_leagues_cache E cs w)) x \<noteq> None"
      by (rule ensure_keeps)
    with True Cons.IH [of w] show ?thesis by simp
  next
    case False
    show ?thesis
    proof (cases "get_current_leagues_for_country E (tick w) x")
      case (Inl e)
      with leagues_steady [OF st, of "tick w" x]
      have "\<exists>e. get_current_leagues_for_country E 0 x = Inl e" by metis
      with False Inl Cons.IH [of "w\<lparr>log := log w @ [CacheFailed x e], tick := Suc (tick w)\<rparr>"]
      show ?thesis by simp
    next
      case (Inr leagues)
      let ?w1 = "w\<lparr>LEAGUES_CACHE := LEAGUES_CACHE w @ [(x, leagues)],
                  log := log w @ [CachedLeagues (length leagues) x], tick := Suc (tick w)\<rparr>"
      have "map_of (LEAGUES_CACHE ?w1) x \<noteq> None" by simp
      then have "map_of (LEAGUES_CACHE (ensure_leagues_cache E cs ?w1)) x \<noteq> None"
        by (rule ensure_keeps)
      with False Inr Cons.IH [of ?w1] show ?thesis by simp
    qed
  qed
qed

lemma ensure_idle:
  assumes st: "steady E"
  shows "\<forall>c \<in> set cs. map_of (LEAGUES_CACHE v) c \<noteq> None \<or>
           (\<exists>e. get_current_leagues_for_country E 0 c = Inl e) \<Longrightarrow>
         inert v (ensure_leagues_cache E cs v)"
proof (induction cs arbitrary: v)
  case Nil
  show ?case by (simp add: inert_refl)
next
  case (Cons x cs)
  show ?case
  proof (cases "map_of (LEAGUES_CACHE v) x \<noteq> None")
    case True
    with Cons show ?thesis by simp
  next
    case False
    with Cons.prems obtain e where "get_current_leagues_for_country E 0 x = Inl e" by auto
    with leagues_steady [OF st, of "tick v" x]
    have f: "get_current_leagues_for_country E (tick v) x = Inl e" by simp
    let ?v1 = "v\<lparr>log := log v @ [CacheFailed x e], tick := Suc (tick v)\<rparr>"
    have i: "inert v ?v1" by (simp add: inert_def)
    from Cons.prems have "\<forall>c \<in> set cs. map_of (LEAGUES_CACHE ?v1) c \<noteq> None \<or>
           (\<exists>e. get_current_leagues_for_country E 0 c = Inl e)" by simp
    from Cons.IH [OF this] have "inert ?v1 (ensure_leagues_cache E cs ?v1)" .
    with i have "inert v (ensure_leagues_cache E cs ?v1)" by (rule inert_trans)
    with False f show ?thesis by simp
  qed
qed

lemma pull_and_schedule_world:
  "world_of (pull_and_schedule E w) = world_of (pull_fixtures E w) \<or>
   (\<exists>c n. world_of (pull_and_schedule E w) =
      send_all E DigestSendFailed (Digest c n) (SUBSCRIBERS (world_of (pull_fixtures E w)))
        (world_of (pull_fixtures E w)))"
proof (cases "pull_fixtures E w")
  case (Raise e w')
  then show ?thesis by (simp add: pull_and_schedule_def)
next
  case (Return r w')
  obtain c n where r: "r = (c, n)" by (cases r)
  show ?thesis
  proof (cases "SUBSCRIBERS w' \<noteq> [] \<and> 0 < n")
    case False
    with Return r show ?thesis by (auto simp: pull_and_schedule_def)
  next
    case True
    with Return r have "world_of (pull_and_schedule E w) =
      send_all E DigestSendFailed (Digest c n) (SUBSCRIBERS w') w'"
      by (simp add: pull_and_schedule_def)
    with Return show ?thesis by auto
  qed
qed

lemma rested_after_pull:
  assumes st: "steady E"
  shows "rested E (world_of (pull_and_schedule E w))"
proof -
  let ?we = "ensure_leagues_cache E COUNTRIES w"
  let ?w2 = "?we\<lparr>tick := Suc (tick ?we)\<rparr>"
  let ?D = "local_date (clock E 0)"
  let ?W1 = "world_of (pull_fixtures E w)"
  let ?W = "world_of (pull_and_schedule E w)"
  from st have d: "local_date (clock E (tick ?we)) = ?D" unfolding steady_def by blast
  have pf: "pull_fixtures E w = countries_loop E ?D (LEAGUES_CACHE ?we) 0 0 ?w2"
    by (simp add: pull_fixtures_def Let_def d)
  have c1: "LEAGUES_CACHE ?W1 = LEAGUES_CACHE ?we"
    unfolding pf using countries_loop_cache [of E ?D "LEAGUES_CACHE ?we" 0 0 ?w2] by simp
  have s1: "settled_cache E ?D (LEAGUES_CACHE ?we) ?W1"
    unfolding pf by (rule countries_loop_settles [OF st])
  have fr: "LEAGUES_CACHE ?W = LEAGUES_CACHE ?W1 \<and> SCHEDULED_KEYS ?W1 \<subseteq> SCHEDULED_KEYS ?W \<and>
            tick ?W1 \<le> tick ?W"
    using pull_and_schedule_world [of E w] by (auto simp: send_all_frame)
  from s1 fr have "settled_cache E ?D (LEAGUES_CACHE ?we) ?W"
    by (auto intro: settled_cache_later)
  moreover have "\<forall>c \<in> set COUNTRIES. map_of (LEAGUES_CACHE ?we) c \<noteq> None \<or>
        (\<exists>e. get_current_leagues_for_country E 0 c = Inl e)"
    by (rule ensure_done [OF st])
  ultimately show ?thesis unfolding rested_def using fr c1 by simp
qed

lemma pull_rested:
  assumes st: "steady E" and r: "rested E v"
  shows "inert v (world_of (pull_and_schedule E v)) \<and>
         (case pull_fixtures E v of Return r v' \<Rightarrow> snd r = 0 | Raise e v' \<Rightarrow> True)"
proof -
  let ?ve = "ensure_leagues_cache E COUNTRIES v"
  let ?v2 = "?ve\<lparr>tick := Suc (tick ?ve)\<rparr>"
  let ?D = "local_date (clock E 0)"
  from st have d: "local_date (clock E (tick ?ve)) = ?D" unfolding steady_def by blast
  from r have i1: "inert v ?ve" unfolding rested_def by (intro ensure_idle [OF st]) simp
  then have i2: "inert v ?v2" by (rule inert_tick2)
  then have c: "LEAGUES_CACHE ?ve = LEAGUES_CACHE v" by (simp add: inert_def)
  have pf: "pull_fixtures E v = countries_loop E ?D (LEAGUES_CACHE v) 0 0 ?v2"
    by (simp add: pull_fixtures_def Let_def d c)
  from r have sc: "settled_cache E ?D (LEAGUES_CACHE v) v" by (simp add: rested_def)
  from i2 have b: "SCHEDULED_KEYS v \<subseteq> SCHEDULED_KEYS ?v2" "tick v \<le> tick ?v2"
    by (simp_all add: inert_def)
  from countries_loop_idle [OF st sc b, of 0 0] obtain v' where
    i3: "inert ?v2 v'" and
    cl: "(\<exists>e. countries_loop E ?D (LEAGUES_CACHE v) 0 0 ?v2 = Raise e v') \<or>
         countries_loop E ?D (LEAGUES_CACHE v) 0 0 ?v2 = Return (0 + length (LEAGUES_CACHE v), 0) v'"
    by blast
  from i2 i3 have i: "inert v v'" by (rule inert_trans)
  from cl show ?thesis
  proof
    assume "\<exists>e. countries_loop E ?D (LEAGUES_CACHE v) 0 0 ?v2 = Raise e v'"
    then obtain e where "pull_fixtures E v = Raise e v'" using pf by auto
    with i show ?thesis by (simp add: pull_and_schedule_def)
  next
    assume "countries_loop E ?D (LEAGUES_CACHE v) 0 0 ?v2 =
              Return (0 + length (LEAGUES_CACHE v), 0) v'"
    with pf have "pull_fixtures E v = Return (length (LEAGUES_CACHE v), 0) v'" by simp
    with i show ?thesis by (simp add: pull_and_schedule_def)
  qed
qed

text \<open>
  C2. When the clock does not go back and stays within one local day, and the provider
  answers every request the same way whenever it is asked (the second run fetches identical
  data), a cycle run right after a cycle schedules nothing: the queue, the ledger and the
  sent messages are those the first cycle left, and the count of newly scheduled jobs of
  the second run is 0.
\<close>

theorem repull_schedules_nothing:
  assumes "steady E"
  shows "job_queue (world_of (pull_and_schedule E (world_of (pull_and_schedule E w)))) =
           job_queue (world_of (pull_and_schedule E w)) \<and>
         SCHEDULED_KEYS (world_of (pull_and_schedule E (world_of (pull_and_schedule E w)))) =
           SCHEDULED_KEYS (world_of (pull_and_schedule E w)) \<and>
         sends (world_of (pull_and_schedule E (world_of (pull_and_schedule E w)))) =
           sends (world_of (pull_and_schedule E w)) \<and>
         (case pull_fixtures E (world_of (pull_and_schedule E w)) of
            Return r w2 \<Rightarrow> snd r = 0
          | Raise e w2 \<Rightarrow> True)"
  using pull_rested [OF assms rested_after_pull [OF assms, of w]]
  by (simp add: inert_def)

lemma steady_demo:
  "steady (steady_demo_env 1761472200000000)"
proof -
  have c: "clock (steady_demo_env 1761472200000000) = (\<lambda>n. 1761472200000000 + int (min n 100))"
    by (simp add: steady_demo_env_def)
  have a: "api_get (steady_demo_env 1761472200000000) = demo_api"
    by (simp add: steady_demo_env_def demo_env_def)
  have day: "\<And>n. local_date (1761472200000000 + int (min n 100)) = 20387"
  proof -
    fix n :: nat
    let ?k = "int (min n 100)"
    have k: "0 \<le> ?k" "?k \<le> 100" by simp_all
    have "1761472200000000 + ?k + 14400000000 = 86400000000 * 20387 + (49800000000 + ?k)"
      by simp
    moreover from k have "0 \<le> 49800000000 + ?k" "49800000000 + ?k < 86400000000" by simp_all
    ultimately have "(1761472200000000 + ?k + 14400000000) div 86400000000 = 20387"
      by (rule int_div_pos_eq)
    then show "local_date (1761472200000000 + int (min n 100)) = 20387"
      by (simp add: local_date_def)
  qed
  have api: "\<And>t t' path params. demo_api t path params = demo_api t' path params"
    by (simp add: demo_api_def)
  show ?thesis
    unfolding steady_def c a using day api by auto
qed

theorem repull_schedules_nothing_witness:
  "steady (steady_demo_env 1761472200000000) \<and>
   map job_name (job_queue (world_of (pull_and_schedule (steady_demo_env 1761472200000000)
       (initial_world\<lparr>SUBSCRIBERS := [1]\<rparr>)))) = [''fx:7:0''] \<and>
   map job_name (job_queue (world_of (pull_and_schedule (steady_demo_env 1761472200000000)
     (world_of (pull_and_schedule (steady_demo_env 1761472200000000)
       (initial_world\<lparr>SUBSCRIBERS := [1]\<rparr>)))))) = [''fx:7:0'']"
proof -
  let ?E = "steady_demo_env 1761472200000000"
  let ?W = "world_of (pull_and_schedule ?E (initial_world\<lparr>SUBSCRIBERS := [1]\<rparr>))"
  have one: "map job_name (job_queue ?W) = [''fx:7:0'']"
    by code_simp
  from repull_schedules_nothing [OF steady_demo, of "initial_world\<lparr>SUBSCRIBERS := [1]\<rparr>"]
  have "job_queue (world_of (pull_and_schedule ?E ?W)) = job_queue ?W" by (rule conjunct1)
  with one steady_demo show ?thesis by simp
qed

end
